theory Spec2Isabelle
  imports Main "HOL-Library.Word"
begin

unbundle bit_operations_syntax

section \<open>Bytes and little-endian integers\<close>

text \<open>
  The archiver works on bytes. A byte read from a file (\<open>in.get()\<close>, an \<open>int\<close> in
  \<open>0..255\<close> or \<open>EOF\<close>) is a \<open>byte\<close>; end of file is the empty input list.
\<close>

type_synonym byte = "8 word"

section \<open>The fragment chunker (the inner loop of \<open>Jidac::add\<close>)\<close>

text \<open>
  The local variables of the fragment loop: the rolling hash \<open>h\<close> (an \<open>unsigned\<close>, so
  32 bits with wrap-around), the previous byte \<open>c1\<close>, the order-1 table \<open>o1\<close>
  (\<open>unsigned char o1[256]\<close>, indexed by a byte), the fragment size \<open>sz\<close>, the number
  of predicted bytes \<open>hits\<close>, the bytes appended to the pending block \<open>sb\<close> by this
  loop, and the bytes fed to the SHA-1 object.
\<close>

record frag =
  h :: "32 word"
  c1 :: byte
  o1 :: "byte \<Rightarrow> byte"
  sz :: nat
  hits :: nat
  put_sb :: "byte list"
  put_sha1 :: "byte list"

definition MIN_FRAGMENT :: nat where
  "MIN_FRAGMENT = 4096"

definition MAX_FRAGMENT :: nat where
  "MAX_FRAGMENT = 520192"

text \<open>The initialisers before \<open>while (true)\<close>: everything zero.\<close>

definition frag0 :: frag where
  "frag0 = \<lparr>h = 0, c1 = 0, o1 = (\<lambda>_. 0), sz = 0, hits = 0, put_sb = [], put_sha1 = []\<rparr>"

text \<open>The body of \<open>if (c!=EOF) {...}\<close> for one byte \<open>c\<close>.\<close>

definition put_byte :: "byte \<Rightarrow> frag \<Rightarrow> frag" where
  "put_byte c s =
     s\<lparr>h := (if c = o1 s (c1 s) then (h s + ucast c + 1) * 314159265
              else (h s + ucast c + 1) * 271828182),
       hits := (if c = o1 s (c1 s) then hits s + 1 else hits s),
       o1 := (o1 s)(c1 s := c),
       c1 := c,
       sz := sz s + 1,
       put_sb := put_sb s @ [c],
       put_sha1 := put_sha1 s @ [c]\<rparr>"

text \<open>The break condition that does not depend on \<open>EOF\<close>.\<close>

definition at_boundary :: "frag \<Rightarrow> bool" where
  "at_boundary s \<longleftrightarrow>
     (unat (h s) < 65536 \<and> MIN_FRAGMENT \<le> sz s) \<or> MAX_FRAGMENT \<le> sz s"

text \<open>
  The loop \<open>while (true) {c=in.get(); if (c!=EOF) {...} if (c==EOF || ...) break;}\<close> on
  the bytes left in the open file. It returns the final locals, the rest of the file and
  whether the loop ended with \<open>c==EOF\<close>.
\<close>

fun read_fragment :: "byte list \<Rightarrow> frag \<Rightarrow> frag \<times> byte list \<times> bool" where
  "read_fragment [] s = (s, [], True)"
| "read_fragment (c # cs) s =
     (let s' = put_byte c s
      in if at_boundary s' then (s', cs, False) else read_fragment cs s')"

text \<open>
  A whole file: the outer loop of \<open>add\<close> reads fragments from the open file until one
  ends with \<open>c==EOF\<close>, which closes the file.
\<close>

function chunk_file :: "byte list \<Rightarrow> byte list list" where
  "chunk_file inp =
     (case read_fragment inp frag0 of
        (s, rest, eof) \<Rightarrow> put_sb s # (if eof then [] else chunk_file rest))"
  by pat_completeness auto
termination
proof (relation "measure length")
  have shorter: "read_fragment inp s = (s', rest, False) \<Longrightarrow> length rest < length inp"
    for inp s s' rest
  proof (induction inp arbitrary: s)
    case Nil
    then show ?case by simp
  next
    case (Cons c cs)
    show ?case
    proof (cases "at_boundary (put_byte c s)")
      case True
      with Cons.prems show ?thesis by simp
    next
      case False
      with Cons.prems have "read_fragment cs (put_byte c s) = (s', rest, False)" by simp
      then have "length rest < length cs" by (rule Cons.IH)
      then show ?thesis by simp
    qed
  qed
  fix inp :: "byte list" and x s y rest eof
  assume "(s, y) = read_fragment inp frag0" "(rest, eof) = y" "\<not> eof"
  then have "read_fragment inp frag0 = (s, rest, False)" by simp
  then show "(rest, inp) \<in> measure length" using shorter by simp
qed simp

subsection \<open>The chunking rule in the words of the specification\<close>

text \<open>
  The rolling hash as the specification words it, on natural numbers with the
  wrap-around written out: the state is the hash, the previous byte and the table.
\<close>

definition spec_hash_step :: "nat \<times> byte \<times> (byte \<Rightarrow> byte) \<Rightarrow> byte \<Rightarrow> nat \<times> byte \<times> (byte \<Rightarrow> byte)" where
  "spec_hash_step st c =
     (case st of (hh, c_prev, tab) \<Rightarrow>
        ((if c = tab c_prev then ((hh + unat c + 1) * 314159265) mod 2 ^ 32
          else ((hh + unat c + 1) * 271828182) mod 2 ^ 32),
         c, tab(c_prev := c)))"

definition spec_hash_run :: "byte list \<Rightarrow> nat \<times> byte \<times> (byte \<Rightarrow> byte)" where
  "spec_hash_run bs = foldl spec_hash_step (0, 0, (\<lambda>_. 0)) bs"

definition spec_hash :: "byte list \<Rightarrow> nat" where
  "spec_hash bs = fst (spec_hash_run bs)"

text \<open>
  A boundary after the first \<open>k\<close> bytes of what is left of the file: the hash is below
  \<open>2^16\<close> and the length is at least 4096, or the length has reached 520192.
\<close>

definition spec_boundary :: "byte list \<Rightarrow> nat \<Rightarrow> bool" where
  "spec_boundary inp k \<longleftrightarrow>
     (spec_hash (take k inp) < 65536 \<and> 4096 \<le> k) \<or> 520192 \<le> k"

text \<open>
  The relation between the locals of the loop and the bytes read so far in the fragment,
  used to compare the loop with the specification's rule.
\<close>

definition corr :: "frag \<Rightarrow> byte list \<Rightarrow> bool" where
  "corr s pre \<longleftrightarrow> (unat (h s), c1 s, o1 s) = spec_hash_run pre \<and> sz s = length pre \<and> put_sb s = pre \<and> put_sha1 s = pre"

section \<open>Little-endian integers\<close>

text \<open>
  \<open>btoi\<close> reads four bytes, least significant first, into an \<open>int\<close>; the callers
  always have four bytes left. The same bits are read as \<open>unsigned\<close> where the source
  assigns the result to an \<open>unsigned\<close>. \<open>btol\<close> reads eight bytes into an
  \<open>int64_t\<close>: the low word unsigned plus the high word shifted by 32.
\<close>

fun btoi_w :: "byte list \<Rightarrow> 32 word" where
  "btoi_w (b0 # b1 # b2 # b3 # _) =
     ucast b0 OR push_bit 8 (ucast b1) OR push_bit 16 (ucast b2) OR push_bit 24 (ucast b3)"
| "btoi_w _ = 0"

definition btoi :: "byte list \<Rightarrow> int" where
  "btoi s = sint (btoi_w s)"

definition btou :: "byte list \<Rightarrow> nat" where
  "btou s = unat (btoi_w s)"

definition btol :: "byte list \<Rightarrow> int" where
  "btol s = uint (btoi_w s) + sint (btoi_w (drop 4 s)) * 2 ^ 32"

section \<open>The archive state of \<open>Jidac\<close>\<close>

definition HT_BAD :: int where
  "HT_BAD = 0x7FFFFFFFFFFFFFFA"

record HT =
  sha1 :: "byte list"
  usize :: int
  csize :: int

text \<open>The constructor \<open>HT(s=0, u=-1, c=HT_BAD)\<close> with no argument.\<close>

definition HT_default :: HT where
  "HT_default = \<lparr>sha1 = replicate 20 0, usize = - 1, csize = HT_BAD\<rparr>"

record DTV =
  dtv_date :: int
  dtv_size :: int
  dtv_attr :: int
  dtv_ptr :: "nat list"
  dtv_version :: int

definition DTV_default :: DTV where
  "DTV_default = \<lparr>dtv_date = 0, dtv_size = 0, dtv_attr = 0, dtv_ptr = [], dtv_version = 0\<rparr>"

record DT =
  edate :: int
  esize :: int
  eattr :: int
  eptr :: "nat list"
  dtv :: "DTV list"
  written :: int

definition DT_default :: DT where
  "DT_default = \<lparr>edate = 0, esize = 0, eattr = 0, eptr = [], dtv = [], written = - 1\<rparr>"

record VER =
  ver_date :: int
  ver_usize :: int
  ver_offset :: int
  ver_updates :: int
  ver_deletes :: int
  ver_firstFragment :: int

definition VER_default :: VER where
  "VER_default = \<lparr>ver_date = 0, ver_usize = 0, ver_offset = 0, ver_updates = 0,
     ver_deletes = 0, ver_firstFragment = 0\<rparr>"

text \<open>
  The members of \<open>Jidac\<close> that hold the archive: the fragment table \<open>ht\<close>, the files
  \<open>dt\<close> (a \<open>map<string, DT>\<close>, keyed by the bytes of the name) and the snapshots
  \<open>ver\<close>; with them the option \<open>-until\<close> (\<open>version\<close>) and the global \<open>quiet\<close>.
\<close>

record jidac =
  ht :: "HT list"
  dt :: "byte list \<Rightarrow> DT option"
  ver :: "VER list"
  version :: int
  quiet :: int

definition MAX_QUIET :: int where
  "MAX_QUIET = 0x7FFFFFFFFFFFFFFF"

text \<open>The constructor part of \<open>doCommand\<close>: \<open>ht.resize(1); ver.resize(1)\<close>.\<close>

definition jidac_init :: jidac where
  "jidac_init = \<lparr>ht = [HT_default], dt = Map.empty, ver = [VER_default],
     version = 9999999999999, quiet = 0\<rparr>"


section \<open>The journal reader \<open>Jidac::read_archive\<close>\<close>

datatype pass_t = NORMAL | ERR | RECOVER

text \<open>
  The reader: the archive state, the locals \<open>block_offset\<close>, \<open>data_offset\<close> and
  \<open>pass\<close> of \<open>read_archive\<close>, the counter behind the pointer \<open>errors\<close>
  (\<open>None\<close> when the caller passes no pointer), the position set by the last
  \<open>in.seek\<close>, and the lines written to \<open>stderr\<close>.
\<close>

record reader = jidac +
  block_offset :: int
  data_offset :: int
  pass :: pass_t
  errors :: "int option"
  in_seek :: "int option"
  msgs :: "string list"

text \<open>
  What the decompresser (\<open>libzpaq\<close>, not part of this file) yields for one block in
  journaling format, that is a segment that passed the test \<open>filename is
  jDC<date>[cdhi]<num> and comment ends with jDC\001\<close>: the letter \<open>filename.s[17]\<close>,
  the date and the number read from the file name, the decompressed payload \<open>os\<close>, and
  the values of \<open>in.tell()\<close> after the segment and after the block.
\<close>

record jblock =
  jkind :: char
  fdate :: int
  num :: "32 word"
  os :: "byte list"
  tell_seg :: nat
  tell_end :: nat

text \<open>
  One step of the outer loop either goes on to the next block, or returns from
  \<open>read_archive\<close> with a value, or dereferences the null pointer \<open>errors\<close>, or
  reads a file name that is not terminated inside the payload (\<open>strlen\<close> then runs into
  the bytes that follow the payload in the buffer, which are not part of the block).
  \<open>read_archive\<close> itself can also end with an exception that it does not catch.
\<close>

datatype step = Next reader | Returned int reader | Segfault | Overrun | Threw string

definition count_error :: "reader \<Rightarrow> reader" where
  "count_error st = st\<lparr>errors := map_option (\<lambda>e. e + 1) (errors st)\<rparr>"

definition say :: "string \<Rightarrow> reader \<Rightarrow> reader" where
  "say m st = st\<lparr>msgs := msgs st @ [m]\<rparr>"

text \<open>\<open>v.back()\<close> changed in place.\<close>

definition upd_back :: "('a \<Rightarrow> 'a) \<Rightarrow> 'a list \<Rightarrow> 'a list" where
  "upd_back f xs = (if xs = [] then [] else butlast xs @ [f (last xs)])"

text \<open>\<open>while (ht.size()<=k) ht.push_back(HT());\<close>\<close>

function grow_ht :: "nat \<Rightarrow> HT list \<Rightarrow> HT list" where
  "grow_ht k hts = (if length hts \<le> k then grow_ht k (hts @ [HT_default]) else hts)"
  by pat_completeness auto
termination
  by (relation "measure (\<lambda>(k, hts). Suc k - length hts)") auto

declare grow_ht.simps [simp del]

subsection \<open>Transaction header (type c)\<close>

text \<open>
  The first value of \<open>isbreak\<close>: the snapshot is beyond \<open>-until\<close>, given as a
  snapshot number (below 19000000000000) or as a date.
\<close>

definition until_rejects :: "jblock \<Rightarrow> reader \<Rightarrow> bool" where
  "until_rejects b st \<longleftrightarrow>
     (if version st < 19000000000000 then version st < int (length (ver st))
      else version st < fdate b)"

definition transaction_header :: "jblock \<Rightarrow> reader \<Rightarrow> step" where
  "transaction_header b st =
     (let st1 = st\<lparr>data_offset := int (tell_seg b) + 1\<rparr>;
          isbreak0 = until_rejects b st;
          jump = (\<not> isbreak0 \<and> length (os b) = 8);
          jmp = (if jump then btol (os b) else 0);
          st2 = (if jump \<and> jmp < 0 then say ''Incomplete transaction ignored'' st1
                 else if jump \<and> 0 < jmp then st1\<lparr>in_seek := Some (int (tell_seg b) + jmp)\<rparr>
                 else st1);
          isbreak1 = (isbreak0 \<or> (jump \<and> jmp < 0))
      in if length (os b) \<noteq> 8 then
           (case errors st2 of
              None \<Rightarrow> Segfault
            | Some e \<Rightarrow>
                Returned (block_offset st2)
                  ((say ''Bad JIDAC header size'' st2)\<lparr>errors := Some (if e \<noteq> 0 then e + 1 else e)\<rparr>))
         else if isbreak1 then Returned (block_offset st2) st2
         else Next (st2\<lparr>ver := ver st2 @
                [VER_default\<lparr>ver_firstFragment := int (length (ht st2)),
                   ver_offset := block_offset st2, ver_date := fdate b\<rparr>]\<rparr>))"

subsection \<open>Fragment table (type h)\<close>

text \<open>
  The loop \<open>for (unsigned i=0; i<n; ++i)\<close> over the 24-byte entries; \<open>num+i\<close> is
  \<open>unsigned\<close>. It returns the state and the message of \<open>error(...)\<close> when it throws.
\<close>

definition ht_entry :: "jblock \<Rightarrow> nat \<Rightarrow> reader \<Rightarrow> reader \<times> string option" where
  "ht_entry b i st =
     (let k = unat (num b + word_of_nat i);
          hts = grow_ht k (ht st);
          e1 = (hts ! k)\<lparr>sha1 := take 20 (drop (4 + 24 * i) (os b))\<rparr>
      in if csize (hts ! k) \<noteq> HT_BAD
         then (st\<lparr>ht := hts[k := e1]\<rparr>, Some ''duplicate fragment ID'')
         else (st\<lparr>ht := hts[k := e1\<lparr>usize := btoi (drop (4 + 24 * i + 20) (os b)),
                        csize := (if i \<noteq> 0 then - int i else data_offset st)\<rparr>]\<rparr>, None))"

function ht_entries :: "jblock \<Rightarrow> nat \<Rightarrow> nat \<Rightarrow> reader \<Rightarrow> reader \<times> string option" where
  "ht_entries b n i st =
     (if i < n then
        (case ht_entry b i st of
           (st1, None) \<Rightarrow> ht_entries b n (i + 1) st1
         | (st1, Some e) \<Rightarrow> (st1, Some e))
      else (st, None))"
  apply pat_completeness
  apply (elim Pair_inject)
  apply hypsubst
  apply (rule refl)
  done
termination
  by (relation "measure (\<lambda>(b, n, i, st). n - i)") auto

declare ht_entries.simps [simp del]

definition fragment_table :: "jblock \<Rightarrow> reader \<Rightarrow> reader \<times> string option" where
  "fragment_table b st =
     (let bsize = btou (os b);
          n = (length (os b) - 4) div 24;
          st1 = (if length (ht st) \<noteq> unat (num b)
                 then (say ''Unordered fragment tables'' st)\<lparr>pass := ERR\<rparr> else st)
      in case ht_entries b n 0 st1 of
           (st2, None) \<Rightarrow> (st2\<lparr>data_offset := data_offset st2 + int bsize\<rparr>, None)
         | (st2, Some e) \<Rightarrow> (st2, Some e))"

subsection \<open>Index (type i)\<close>

text \<open>
  The attribute loop \<open>for (i=0; i<na && s<end; ++i, ++s) if (i<8) attr+=...\<close>; the sum
  is an \<open>int64_t\<close>.
\<close>

definition to_int64 :: "int \<Rightarrow> int" where
  "to_int64 x = sint (word_of_int x :: 64 word)"

function read_attr :: "byte list \<Rightarrow> nat \<Rightarrow> nat \<Rightarrow> nat \<Rightarrow> int \<Rightarrow> nat \<times> int" where
  "read_attr bs na i s a =
     (if i < na \<and> s < length bs
      then read_attr bs na (i + 1) (s + 1)
             (if i < 8 then to_int64 (a + uint (bs ! s) * 2 ^ (8 * i)) else a)
      else (s, a))"
  apply pat_completeness
  apply (elim Pair_inject)
  apply hypsubst
  apply (rule refl)
  done
termination
  by (relation "measure (\<lambda>(bs, na, i, s, a). length bs - s)") auto

declare read_attr.simps [simp del]

text \<open>
  The pointer loop \<open>for (i=0; i<ni && s<=end-4; ++i)\<close>. A pointer that is 0, or at
  least \<open>ht.size()+(1<<24)\<close>, throws; otherwise \<open>ht\<close> grows until the pointer is an
  index of it, which sets \<open>pass=ERR\<close>.
\<close>

definition read_ptr :: "nat \<Rightarrow> nat \<Rightarrow> reader \<Rightarrow> DTV \<Rightarrow> (reader \<times> DTV) \<times> string option" where
  "read_ptr p i st v =
     (let v1 = v\<lparr>dtv_ptr := (dtv_ptr v)[i := p]\<rparr>
      in if p < 1 \<or> length (ht st) + 2 ^ 24 \<le> p
         then ((st, v1), Some ''bad fragment ID'')
         else
           (let st1 = (if length (ht st) \<le> p
                       then st\<lparr>pass := ERR, ht := grow_ht p (ht st)\<rparr> else st);
                u = usize (ht st1 ! p)
            in ((st1\<lparr>ver := upd_back (\<lambda>r. r\<lparr>ver_usize := ver_usize r + u\<rparr>) (ver st1)\<rparr>,
                 v1\<lparr>dtv_size := dtv_size v1 + u\<rparr>), None)))"

function read_ptrs ::
  "byte list \<Rightarrow> nat \<Rightarrow> nat \<Rightarrow> nat \<Rightarrow> reader \<Rightarrow> DTV \<Rightarrow> (reader \<times> DTV \<times> nat) \<times> string option" where
  "read_ptrs bs ni i s st v =
     (if i < ni \<and> s + 4 \<le> length bs then
        (case read_ptr (btou (drop s bs)) i st v of
           ((st1, v1), None) \<Rightarrow> read_ptrs bs ni (i + 1) (s + 4) st1 v1
         | ((st1, v1), Some e) \<Rightarrow> ((st1, v1, s + 4), Some e))
      else ((st, v, s), None))"
  apply pat_completeness
  apply (elim Pair_inject)
  apply hypsubst
  apply (rule refl)
  done
termination
  by (relation "measure (\<lambda>(bs, ni, i, s, st, v). ni - i)") auto

declare read_ptrs.simps [simp del]

text \<open>
  \<open>DT& dtr=dt[fp]; dtr.dtv.push_back(DTV()); DTV& dtv=dtr.dtv.back();\<close> and all that is
  written through \<open>dtv\<close>: the record is put into the map with the version as it stands.
\<close>

definition store_dtv :: "byte list \<Rightarrow> DTV \<Rightarrow> reader \<Rightarrow> reader" where
  "store_dtv name v st =
     (let d = (case dt st name of None \<Rightarrow> DT_default | Some d \<Rightarrow> d)
      in st\<lparr>dt := (dt st)(name \<mapsto> d\<lparr>dtv := dtv d @ [v]\<rparr>)\<rparr>)"

text \<open>
  One record of an index block, from position \<open>s\<close>. The name is the C string at
  \<open>s+8\<close>, which ends at the first zero byte. The buffer is not zero-terminated: when
  the payload has no zero byte from \<open>s+8\<close> on, \<open>dt[fp]\<close> and \<open>strlen(fp)\<close> read
  past the payload, and the record has no result (\<open>None\<close>).
\<close>

definition index_record ::
  "byte list \<Rightarrow> nat \<Rightarrow> reader \<Rightarrow> ((reader \<times> nat) \<times> string option) option" where
  "index_record bs s st =
     (if 0 \<notin> set (drop (s + 8) bs) then None
      else Some
       (let name = takeWhile (\<lambda>c. c \<noteq> 0) (drop (s + 8) bs);
            d8 = btol (drop s bs);
            v0 = DTV_default\<lparr>dtv_version := int (length (ver st)) - 1, dtv_date := d8\<rparr>;
            st1 = st\<lparr>ver := upd_back
                    (\<lambda>r. if d8 \<noteq> 0 then r\<lparr>ver_updates := ver_updates r + 1\<rparr>
                          else r\<lparr>ver_deletes := ver_deletes r + 1\<rparr>) (ver st)\<rparr>;
            s1 = s + 8 + length name + 1
        in if d8 \<noteq> 0 \<and> s1 + 8 \<le> length bs then
             (let na = btou (drop s1 bs);
                  (s2, a) = read_attr bs na 0 (s1 + 4) (dtv_attr v0);
                  v1 = v0\<lparr>dtv_attr := a\<rparr>
              in if s2 + 4 \<le> length bs then
                   (let ni = btou (drop s2 bs);
                        v2 = v1\<lparr>dtv_ptr := replicate ni 0\<rparr>
                    in case read_ptrs bs ni 0 (s2 + 4) st1 v2 of
                         ((st2, v3, s3), e) \<Rightarrow> ((store_dtv name v3 st2, s3), e))
                 else ((store_dtv name v1 st1, s2), None))
           else ((store_dtv name v0 st1, s1), None)))"




lemma read_attr_pos: "s \<le> fst (read_attr bs na i s a)"
proof (induction bs na i s a rule: read_attr.induct)
  case (1 bs na i s a)
  show ?case
  proof (cases "i < na \<and> s < length bs")
    case True
    have "read_attr bs na i s a = read_attr bs na (i + 1) (s + 1)
             (if i < 8 then to_int64 (a + uint (bs ! s) * 2 ^ (8 * i)) else a)"
      using True by (subst read_attr.simps) simp
    moreover have "s + 1 \<le> fst (read_attr bs na (i + 1) (s + 1)
             (if i < 8 then to_int64 (a + uint (bs ! s) * 2 ^ (8 * i)) else a))"
      using "1.IH"[OF True] .
    ultimately show ?thesis by simp
  next
    case False
    then show ?thesis by (subst read_attr.simps) auto
  qed
qed

lemma read_ptrs_pos: "read_ptrs bs ni i s st v = ((st', v', s'), e) \<Longrightarrow> s \<le> s'"
proof (induction bs ni i s st v rule: read_ptrs.induct)
  case (1 bs ni i s st v)
  show ?case
  proof (cases "i < ni \<and> s + 4 \<le> length bs")
    case False
    with "1.prems" show ?thesis by (subst (asm) read_ptrs.simps) simp
  next
    case True
    obtain st1 v1 r where rp: "read_ptr (btou (drop s bs)) i st v = ((st1, v1), r)"
      by (metis surj_pair)
    show ?thesis
    proof (cases r)
      case None
      with True rp "1.prems" have "read_ptrs bs ni (i + 1) (s + 4) st1 v1 = ((st', v', s'), e)"
        by (subst (asm) read_ptrs.simps) simp
      with "1.IH"[OF True rp[symmetric] refl] None have "s + 4 \<le> s'" by simp
      then show ?thesis by simp
    next
      case (Some m)
      with True rp "1.prems" have "s' = s + 4"
        by (subst (asm) read_ptrs.simps) simp
      then show ?thesis by simp
    qed
  qed
qed


lemma index_record_advances:
  assumes "index_record bs s st = Some ((st', s'), e)"
  shows "s < s'"
proof -
  have z: "0 \<in> set (drop (s + 8) bs)"
    using assms by (auto simp: index_record_def split: if_splits)
  define name where "name = takeWhile (\<lambda>c. c \<noteq> 0) (drop (s + 8) bs)"
  define s1 where "s1 = s + 8 + length name + 1"
  define d8 where "d8 = btol (drop s bs)"
  obtain s2 a where ra: "read_attr bs (btou (drop s1 bs)) 0 (s1 + 4) 0 = (s2, a)"
    by (metis surj_pair)
  have s2: "s1 + 4 \<le> s2" using read_attr_pos[of "s1 + 4" bs "btou (drop s1 bs)" 0 0] ra by simp
  note defs = index_record_def Let_def DTV_default_def name_def[symmetric] s1_def[symmetric] d8_def[symmetric]
  have "s1 \<le> s'"
  proof (cases "d8 \<noteq> 0 \<and> s1 + 8 \<le> length bs")
    case False
    with assms z show ?thesis unfolding defs by auto
  next
    case T1: True
    show ?thesis
    proof (cases "s2 + 4 \<le> length bs")
      case False
      with assms z T1 ra s2 show ?thesis unfolding defs by auto
    next
      case True
      with assms z T1 ra have "s2 + 4 \<le> s'"
        unfolding defs by (auto split: prod.splits dest: read_ptrs_pos)
      with s2 show ?thesis by simp
    qed
  qed
  then show ?thesis by (simp add: s1_def)
qed

text \<open>The loop \<open>while (s<=end-9)\<close> over the records of the payload.\<close>

function index_records :: "byte list \<Rightarrow> nat \<Rightarrow> reader \<Rightarrow> (reader \<times> string option) option" where
  "index_records bs s st =
     (if s + 9 \<le> length bs then
        (case index_record bs s st of
           None \<Rightarrow> None
         | Some ((st1, s1), None) \<Rightarrow> index_records bs s1 st1
         | Some ((st1, s1), Some e) \<Rightarrow> Some (st1, Some e))
      else Some (st, None))"
  apply pat_completeness
  apply (elim Pair_inject)
  apply hypsubst
  apply (rule refl)
  done
termination
proof (relation "measure (\<lambda>(bs, s, st). length bs - s)")
  fix bs :: "byte list" and s :: nat and st :: reader and x2 x y st1 s1
  assume le: "s + 9 \<le> length bs" and x2: "index_record bs s st = Some x2"
    and x: "(x, y) = x2" and p: "(st1, s1) = x" and n: "y = None"
  from x2 x p have "index_record bs s st = Some ((st1, s1), y)" by simp
  then have "s < s1" by (rule index_record_advances)
  with le show "((bs, s1, st1), bs, s, st) \<in> measure (\<lambda>(bs, s, st). length bs - s)" by simp
qed simp

declare index_records.simps [simp del]

definition index_block :: "jblock \<Rightarrow> reader \<Rightarrow> (reader \<times> string option) option" where
  "index_block b st = index_records (os b) 0 st"

subsection \<open>Recovery of fragment sizes and hashes from a data block (type d)\<close>

text \<open>
  The loop that reads the fragment sizes of the redundant list into
  \<open>ht[n..n+f-1].usize\<close> and sets the locators; the sum is \<open>unsigned\<close>.
\<close>

function recover_sizes ::
  "byte list \<Rightarrow> nat \<Rightarrow> nat \<Rightarrow> nat \<Rightarrow> nat \<Rightarrow> int \<Rightarrow> HT list \<Rightarrow> nat \<Rightarrow> HT list \<times> nat" where
  "recover_sizes bs n f i p boff hts acc =
     (if i < f then
        recover_sizes bs n f (i + 1) (p + 4) boff
          (hts[(n + i) mod 2 ^ 32 := (hts ! ((n + i) mod 2 ^ 32))
               \<lparr>usize := btoi (drop p bs), csize := (if i \<noteq> 0 then - int i else boff)\<rparr>])
          ((acc + btou (drop p bs)) mod 2 ^ 32)
      else (hts, acc))"
  by pat_completeness auto
termination
  by (relation "measure (\<lambda>(bs, n, f, i, p, boff, hts, acc). f - i)") auto

declare recover_sizes.simps [simp del]

text \<open>
  The loop that hashes the bytes of each fragment; \<open>sha1.result()\<close> starts a new hash.
  The SHA-1 function is the one of \<open>libzpaq\<close>, a parameter here.
\<close>

function recover_hashes ::
  "(byte list \<Rightarrow> byte list) \<Rightarrow> byte list \<Rightarrow> nat \<Rightarrow> nat \<Rightarrow> nat \<Rightarrow> nat \<Rightarrow> HT list \<Rightarrow> HT list" where
  "recover_hashes sha1_of bs n f i p hts =
     (if i < f then
        recover_hashes sha1_of bs n f (i + 1) (p + nat (usize (hts ! ((n + i) mod 2 ^ 32))))
          (hts[(n + i) mod 2 ^ 32 := (hts ! ((n + i) mod 2 ^ 32))
               \<lparr>sha1 := sha1_of (take (nat (usize (hts ! ((n + i) mod 2 ^ 32)))) (drop p bs))\<rparr>])
      else hts)"
  by pat_completeness auto
termination
  by (relation "measure (\<lambda>(sha1_of, bs, n, f, i, p, hts). f - i)") auto

declare recover_hashes.simps [simp del]

definition recover_table :: "(byte list \<Rightarrow> byte list) \<Rightarrow> jblock \<Rightarrow> int \<Rightarrow> HT list \<Rightarrow> HT list" where
  "recover_table sha1_of b boff hts0 =
     (if 8 \<le> length (os b) \<and> csize (hts0 ! unat (num b)) = HT_BAD then
        (let p = length (os b) - 8;
             n0 = btou (drop p (os b));
             n = (if n0 = 0 then unat (num b) else n0);
             f = btou (drop (p + 4) (os b))
         in if n = unat (num b) \<and> f \<noteq> 0 \<and> (f * 4 + 8) mod 2 ^ 32 \<le> length (os b) then
              (case recover_sizes (os b) n f 0 (length (os b) - 8 - (4 * f) mod 2 ^ 32) boff
                      (grow_ht ((n + f) mod 2 ^ 32) hts0) 0 of
                 (hts1, acc) \<Rightarrow>
                   if (acc + f * 4 + 8) mod 2 ^ 32 = length (os b)
                   then recover_hashes sha1_of (os b) n f 0 0 hts1 else hts1)
            else hts0)
      else hts0)"

text \<open>The whole branch, with \<open>Correct bad offsets\<close> at its end.\<close>

definition recover_data :: "(byte list \<Rightarrow> byte list) \<Rightarrow> jblock \<Rightarrow> reader \<Rightarrow> reader" where
  "recover_data sha1_of b st =
     (let hts1 = recover_table sha1_of b (block_offset st) (ht st)
      in st\<lparr>ht := (if quiet st < MAX_QUIET \<and> csize (hts1 ! unat (num b)) \<noteq> block_offset st
                    then hts1[unat (num b) := (hts1 ! unat (num b))\<lparr>csize := block_offset st\<rparr>]
                    else hts1)\<rparr>)"

subsection \<open>One block, and the loop over the blocks\<close>

text \<open>
  In the recovery pass only the data blocks with missing table entries are decompressed;
  the payload of any other block is empty then (\<open>os.reset()\<close>).
\<close>

definition decompressed :: "jblock \<Rightarrow> reader \<Rightarrow> bool" where
  "decompressed b st \<longleftrightarrow>
     pass st \<noteq> RECOVER \<or>
     (jkind b = CHR ''d'' \<and> 0 < num b \<and> unat (num b) < length (ht st) \<and> csize (ht st ! unat (num b)) = HT_BAD)"

text \<open>
  The end of a block: without an exception \<open>block_offset=in.tell()\<close> after the block;
  the handler \<open>catch (std::exception& e)\<close> sets \<open>block_offset=in.tell()\<close> where the
  exception left the input, reports and counts the error.
\<close>

definition caught :: "jblock \<Rightarrow> reader \<times> string option \<Rightarrow> step" where
  "caught b r =
     (case r of
        (st, None) \<Rightarrow> Next (st\<lparr>block_offset := int (tell_end b)\<rparr>)
      | (st, Some e) \<Rightarrow> Next (count_error (say e (st\<lparr>block_offset := int (tell_seg b)\<rparr>))))"

definition jidac_block :: "(byte list \<Rightarrow> byte list) \<Rightarrow> jblock \<Rightarrow> reader \<Rightarrow> step" where
  "jidac_block sha1_of b0 st =
     (let b = (if decompressed b0 st then b0 else b0\<lparr>os := []\<rparr>)
      in if jkind b = CHR ''c'' \<and> 19000000000000 \<le> fdate b \<and> fdate b < 30000000000000
            \<and> pass st \<noteq> RECOVER then
           (case transaction_header b st of
              Next st1 \<Rightarrow> caught b (st1, None)
            | r \<Rightarrow> r)
         else if jkind b = CHR ''h'' \<and> 0 < num b \<and> 4 \<le> length (os b) \<and> pass st \<noteq> RECOVER then
           caught b (fragment_table b st)
         else if jkind b = CHR ''i'' \<and> pass st \<noteq> RECOVER then
           (case index_block b st of None \<Rightarrow> Overrun | Some r \<Rightarrow> caught b r)
         else if pass st = RECOVER \<and> jkind b = CHR ''d'' \<and> 0 < num b \<and> unat (num b) < length (ht st) then
           caught b (recover_data sha1_of b st, None)
         else if pass st \<noteq> RECOVER then
           caught b (count_error (say ''Bad JIDAC block ignored'' st), None)
         else caught b (st, None))"

text \<open>
  What \<open>d.findBlock()\<close> and the decompresser find, one after the other: a block in
  journaling format, or a block that throws while it is read (a damaged block, a wrong
  size, a bad checksum), with \<open>in.tell()\<close> and the message.
\<close>

datatype found = Block jblock | Damaged nat string

fun read_blocks :: "(byte list \<Rightarrow> byte list) \<Rightarrow> found list \<Rightarrow> reader \<Rightarrow> step" where
  "read_blocks sha1_of [] st = Next st"
| "read_blocks sha1_of (Damaged pos e # bs) st =
     read_blocks sha1_of bs (count_error (say e (st\<lparr>block_offset := int pos\<rparr>)))"
| "read_blocks sha1_of (Block b # bs) st =
     (case jidac_block sha1_of b st of
        Next st1 \<Rightarrow> read_blocks sha1_of bs st1
      | r \<Rightarrow> r)"

text \<open>\<open>Recompute file sizes in recover mode\<close>, for every version of every file.\<close>

definition recompute_size :: "HT list \<Rightarrow> DTV \<Rightarrow> DTV" where
  "recompute_size hts v =
     v\<lparr>dtv_size := foldl (\<lambda>n k. if 0 < k \<and> k < length hts then n + usize (hts ! k) else n) 0 (dtv_ptr v)\<rparr>"

definition recompute_sizes :: "reader \<Rightarrow> reader" where
  "recompute_sizes st =
     st\<lparr>dt := (\<lambda>name. map_option (\<lambda>d. d\<lparr>dtv := map (recompute_size (ht st)) (dtv d)\<rparr>) (dt st name))\<rparr>"

text \<open>
  \<open>read_archive\<close> on an archive that opens, a file of \<open>in_size\<close> bytes: the first
  pass over the blocks found from offset 0 (\<open>first\<close>); when it ends in \<open>pass==ERR\<close>,
  the input is rewound and the blocks found then (\<open>again\<close>) are read in the recovery
  pass. When no block at all is found (\<open>found_data\<close> stays false) in a file that is not
  empty, the function throws after the loop. The result is the value returned and the
  state left in the \<open>Jidac\<close> object.
\<close>

definition reader_init :: "jidac \<Rightarrow> int option \<Rightarrow> reader" where
  "reader_init j errs =
     jidac.extend j \<lparr>block_offset = 0, data_offset = 0, pass = NORMAL,
        errors = map_option (\<lambda>_. 0) errs, in_seek = None, msgs = []\<rparr>"

definition read_archive ::
  "(byte list \<Rightarrow> byte list) \<Rightarrow> nat \<Rightarrow> found list \<Rightarrow> found list \<Rightarrow> int option \<Rightarrow> jidac \<Rightarrow> step" where
  "read_archive sha1_of in_size first again errs j =
     (case read_blocks sha1_of first (reader_init j errs) of
        Next st1 \<Rightarrow>
          if pass st1 = ERR \<and> again \<noteq> [] then
            (case read_blocks sha1_of again (st1\<lparr>block_offset := 0, pass := RECOVER\<rparr>) of
               Next st2 \<Rightarrow> Returned (block_offset st2) (recompute_sizes st2)
             | r \<Rightarrow> r)
          else if 0 < in_size \<and> first = [] then Threw ''archive contains no data''
          else Returned (block_offset st1) st1
      | r \<Rightarrow> r)"

section \<open>The option \<open>-until\<close> of \<open>Jidac::doCommand\<close>\<close>

text \<open>
  \<open>version=int64_t(atof(argv[++i]))\<close>, then a date given with fewer than 14 digits is
  completed to the end of its day, hour or minute; a number above 9999999 that is not a
  date from 19000101000000 to 29991231235959 ends the program with \<open>exit(1)\<close>. The
  argument here is the number that \<open>atof\<close> read.
\<close>

datatype cli_error = Version_date_out_of_range

definition set_version :: "int \<Rightarrow> cli_error + int" where
  "set_version a =
     (let v1 = (if 19000000 \<le> a \<and> a \<le> 29991231 then a * 100 + 23 else a);
          v2 = (if 1900000000 \<le> v1 \<and> v1 \<le> 2999123123 then v1 * 100 + 59 else v1);
          v3 = (if 190000000000 \<le> v2 \<and> v2 \<le> 299912312359 then v2 * 100 + 59 else v2)
      in if 9999999 < v3 \<and> (v3 < 19000101000000 \<or> 29991231235959 < v3)
         then Inl Version_date_out_of_range else Inr v3)"

section \<open>The fragment locator law\<close>

text \<open>
  The tests of \<open>read_archive\<close> for a transaction header and for a fragment table.
\<close>

definition is_header :: "jblock \<Rightarrow> bool" where
  "is_header b \<longleftrightarrow>
     jkind b = CHR ''c'' \<and> 19000000000000 \<le> fdate b \<and> fdate b < 30000000000000"

definition is_table :: "jblock \<Rightarrow> bool" where
  "is_table b \<longleftrightarrow> jkind b = CHR ''h'' \<and> 0 < num b \<and> 4 \<le> length (os b)"


text \<open>
  The fragment table as the journal announces it. The position after a transaction header
  is taken as the offset of the first data block of the snapshot, and each fragment table
  advertises the compressed size \<open>bsize\<close> of its data block, so the data block of the
  next table is taken to start that many bytes further. \<open>journal_table cur bs\<close> lists
  the entries of the fragment tables among the blocks \<open>bs\<close>, in their order, where
  \<open>cur\<close> is the offset announced for the next data block; \<open>journal_offset\<close> is that
  offset after the blocks.
\<close>

definition next_cur :: "int \<Rightarrow> jblock \<Rightarrow> int" where
  "next_cur cur b =
     (if is_header b then int (tell_seg b) + 1
      else if is_table b then cur + int (btou (os b)) else cur)"


fun journal_offset :: "int \<Rightarrow> found list \<Rightarrow> int" where
  "journal_offset cur [] = cur"
| "journal_offset cur (Damaged pos e # bs) = journal_offset cur bs"
| "journal_offset cur (Block b # bs) = journal_offset (next_cur cur b) bs"






section \<open>Blocks used in the examples\<close>

text \<open>
  An index block with one record: date 1, the name \<open>a\<close>, no attribute bytes and one
  fragment pointer, 1.
\<close>

definition ex_index_block :: jblock where
  "ex_index_block = \<lparr>jkind = CHR ''i'', fdate = 20250102000000, num = 1,
     os = [1, 0, 0, 0, 0, 0, 0, 0, 97, 0, 0, 0, 0, 0, 1, 0, 0, 0, 1, 0, 0, 0],
     tell_seg = 330, tell_end = 331\<rparr>"

text \<open>
  A transaction header dated 2025-01-02 00:00:00 with the payload \<open>n\<close> (eight bytes,
  the first is \<open>n\<close>), and one dated 2025-01-05 with the payload -1 that \<open>add\<close>
  writes first.
\<close>

definition ex_header :: "byte \<Rightarrow> jblock" where
  "ex_header n = \<lparr>jkind = CHR ''c'', fdate = 20250102000000, num = 1,
     os = [n, 0, 0, 0, 0, 0, 0, 0], tell_seg = 103, tell_end = 104\<rparr>"

definition ex_header_incomplete :: jblock where
  "ex_header_incomplete = \<lparr>jkind = CHR ''c'', fdate = 20250105000000, num = 3,
     os = [255, 255, 255, 255, 255, 255, 255, 255], tell_seg = 364, tell_end = 365\<rparr>"


text \<open>
  What the reading of index records does to the fragment table: it only appends empty
  entries, and it switches to \<open>pass=ERR\<close> exactly when it appends one.
\<close>

definition quiet_step :: "reader \<Rightarrow> reader \<Rightarrow> bool" where
  "quiet_step st st' \<longleftrightarrow>
     (\<exists>n. ht st' = ht st @ replicate n HT_default \<and>
          pass st' = (if n = 0 then pass st else ERR)) \<and>
     data_offset st' = data_offset st"

text \<open>The versions of a file in \<open>dt\<close>; none when the file is not in the map.\<close>

definition versions :: "reader \<Rightarrow> byte list \<Rightarrow> DTV list" where
  "versions st name = (case dt st name of None \<Rightarrow> [] | Some d \<Rightarrow> dtv d)"

text \<open>
  The fragment pointers of a version after the reading of its record, which ended with
  \<open>e\<close>: each is a slot that is 0, or an index of the fragment table, or (after the error
  only) beyond the table by \<open>2^24\<close> or more.
\<close>

definition ptrs_checked :: "reader \<Rightarrow> string option \<Rightarrow> DTV \<Rightarrow> bool" where
  "ptrs_checked st e v \<longleftrightarrow>
     (\<forall>p \<in> set (dtv_ptr v).
        p = 0 \<or> p < length (ht st) \<or> (e \<noteq> None \<and> length (ht st) + 2 ^ 24 \<le> p))"

text \<open>The state that a step leaves, when it does not crash.\<close>

fun state_of :: "step \<Rightarrow> reader option" where
  "state_of (Next st) = Some st"
| "state_of (Returned r st) = Some st"
| "state_of Segfault = None"
| "state_of Overrun = None"
| "state_of (Threw e) = None"

text \<open>
  A fragment table for fragments 1 and 2: the compressed size 100 of the data block, then
  two tuples of a hash (twenty bytes 1, twenty bytes 2) and a size (5 and 7).
\<close>

definition ex_table :: jblock where
  "ex_table = \<lparr>jkind = CHR ''h'', fdate = 20250102000000, num = 1,
     os = [100, 0, 0, 0] @ replicate 20 1 @ [5, 0, 0, 0] @ replicate 20 2 @ [7, 0, 0, 0],
     tell_seg = 260, tell_end = 261\<rparr>"





section \<open>The snapshot writer \<open>Jidac::add\<close>\<close>

subsection \<open>The index of fragment hashes \<open>HTIndex\<close>\<close>

text \<open>
  \<open>t\<close> maps a 22-bit prefix of a hash to the list of fragment IDs with that prefix
  (\<open>vector<vector<unsigned> > t\<close> with \<open>N=1<<22\<close> buckets), \<open>htsize\<close> is the number of
  entries of \<open>ht\<close> looked at so far. The table \<open>ht\<close> itself is a reference in the source
  and an argument here.
\<close>

record HTIndex =
  ix_t :: "nat \<Rightarrow> nat list"
  ix_htsize :: nat

fun ix_hash :: "byte list \<Rightarrow> nat" where
  "ix_hash (b0 # b1 # b2 # _) =
     unat ((ucast b0 OR push_bit 8 (ucast b1) OR push_bit 16 (ucast b2) :: 32 word) AND (2 ^ 22 - 1))"
| "ix_hash _ = 0"

text \<open>
  \<open>find\<close>: the first ID of the bucket whose 20 hash bytes are equal (\<open>memcmp\<close>), or 0.
\<close>

fun find_in :: "HT list \<Rightarrow> byte list \<Rightarrow> nat list \<Rightarrow> nat" where
  "find_in htr sh [] = 0"
| "find_in htr sh (j # v) =
     (if take 20 sh = take 20 (sha1 (htr ! j)) then j else find_in htr sh v)"

definition ix_find :: "HT list \<Rightarrow> HTIndex \<Rightarrow> byte list \<Rightarrow> nat" where
  "ix_find htr ix sh = find_in htr sh (ix_t ix (ix_hash sh))"

text \<open>\<open>update\<close>: index the entries not yet looked at, those of known size.\<close>

function ix_update :: "HT list \<Rightarrow> HTIndex \<Rightarrow> HTIndex" where
  "ix_update htr ix =
     (if ix_htsize ix < length htr then
        ix_update htr
          (ix\<lparr>ix_t := (if 0 \<le> usize (htr ! ix_htsize ix)
                        then (ix_t ix)(ix_hash (sha1 (htr ! ix_htsize ix)) :=
                               ix_t ix (ix_hash (sha1 (htr ! ix_htsize ix))) @ [ix_htsize ix])
                        else ix_t ix),
              ix_htsize := ix_htsize ix + 1\<rparr>)
      else ix)"
  by pat_completeness auto
termination
  by (relation "measure (\<lambda>(htr, ix). length htr - ix_htsize ix)") auto

declare ix_update.simps [simp del]

text \<open>The constructor \<open>HTIndex(ht)\<close>: empty buckets, then \<open>update()\<close>.\<close>

definition HTIndex_new :: "HT list \<Rightarrow> HTIndex" where
  "HTIndex_new htr = ix_update htr \<lparr>ix_t = (\<lambda>_. []), ix_htsize = 0\<rparr>"

subsection \<open>The main loop\<close>

text \<open>\<open>itob\<close>: four bytes, least significant first.\<close>

definition itob :: "nat \<Rightarrow> byte list" where
  "itob x = [word_of_nat x, word_of_nat (x div 2 ^ 8), word_of_nat (x div 2 ^ 16),
             word_of_nat (x div 2 ^ 24)]"

text \<open>
  A block handed to \<open>CompressJob::write\<close>: the bytes of \<open>sb\<close> (fragments and redundant
  list) and the file name \<open>jDC<date>d<first>\<close>, kept as the date, the ID of the first
  fragment and, for reference, the number of fragments.
\<close>

record cjob =
  cj_in :: "byte list"
  cj_date :: int
  cj_first :: nat
  cj_frags :: nat

text \<open>
  The state of the loop \<open>while (fi<vf.size() || frags>0)\<close>: the archive state, the names
  \<open>vf\<close> of the files to add (keys of \<open>dt\<close>, sorted), the file number \<open>fi\<close>, the
  fragment number \<open>fj\<close> in the file, the open input file (the bytes not yet read,
  \<open>None\<close> when no file is open), the pending block \<open>sb\<close>, the number \<open>frags\<close> of
  fragments in it, the index \<open>htinv\<close>, the blocks enqueued so far, the transaction date,
  the option \<open>-fragile\<close> and the total input size.

  The estimate \<open>redundancy\<close> and the counters \<open>text\<close> and \<open>exe\<close>, which only
  choose when to end a block and how to compress it, are not part of the state: the tests
  on them are the parameter \<open>full\<close> of the loop, so that what is proved holds whatever
  they decide.
\<close>

record adder = jidac +
  vf :: "byte list list"
  fi :: nat
  fj :: nat
  in_file :: "byte list option"
  sb :: "byte list"
  frags :: nat
  htinv :: HTIndex
  jobs :: "cjob list"
  date :: int
  fragile :: bool
  inputsize :: nat

text \<open>\<open>Jidac::rename\<close>, with the command line lists \<open>files\<close> and \<open>tofiles\<close>.\<close>

fun rename_pairs :: "byte list list \<Rightarrow> byte list list \<Rightarrow> byte list \<Rightarrow> byte list" where
  "rename_pairs (f # fs) (t # ts) name =
     (if length f \<le> length name \<and> take (length f) name = f
      then t @ drop (length f) name else rename_pairs fs ts name)"
| "rename_pairs _ _ name = name"

definition rename_file :: "byte list list \<Rightarrow> byte list list \<Rightarrow> byte list \<Rightarrow> byte list" where
  "rename_file files tofiles name =
     (if files = [] \<and> tofiles \<noteq> [] then hd tofiles @ name
      else rename_pairs files tofiles name)"

text \<open>
  The end of a block, when \<open>frags>0\<close>: the redundant list of fragment sizes is
  appended (zeros with \<open>-fragile\<close>), the block is enqueued (which empties \<open>sb\<close>), and
  the first of its fragments gets \<open>csize=-1\<close>, to be filled in later.
\<close>

definition flush_block :: "adder \<Rightarrow> adder" where
  "flush_block st =
     (let first = length (ht st) - frags st;
          trailer = (if fragile st then itob 0 @ itob 0
                     else concat (map (\<lambda>i. itob (nat (usize (ht st ! i) mod 2 ^ 32)))
                                   [first..<length (ht st)])
                          @ itob first @ itob (frags st))
      in st\<lparr>jobs := jobs st @ [\<lparr>cj_in = sb st @ trailer, cj_date = date st,
                                 cj_first = first, cj_frags = frags st\<rparr>],
            sb := [],
            ht := (ht st)[first := (ht st ! first)\<lparr>csize := - 1\<rparr>],
            frags := 0\<rparr>)"

text \<open>
  \<open>Point file to this fragment\<close>: \<open>while (eptr.size()<=fj) eptr.push_back(0);
  eptr[fj++]=j;\<close> on the entry of the current file.
\<close>

definition point_file :: "nat \<Rightarrow> adder \<Rightarrow> adder" where
  "point_file j st =
     (let name = vf st ! fi st;
          d = (case dt st name of None \<Rightarrow> DT_default | Some d \<Rightarrow> d);
          e = eptr d @ replicate (Suc (fj st) - length (eptr d)) 0
      in st\<lparr>dt := (dt st)(name \<mapsto> d\<lparr>eptr := e[fj st := j]\<rparr>), fj := fj st + 1\<rparr>)"

text \<open>
  \<open>Look for matching fragment\<close>, after the fragment loop has left its locals \<open>s\<close>
  and has appended the bytes of the fragment to \<open>sb\<close>: a fragment that is not in the
  index gets a new entry \<open>HT(sh, sz, 0)\<close> and stays in \<open>sb\<close>; one that is found is
  cut off \<open>sb\<close> again. Either way the file points to it. The SHA-1 function is the one of
  \<open>libzpaq\<close>, a parameter.
\<close>

definition add_fragment :: "(byte list \<Rightarrow> byte list) \<Rightarrow> frag \<Rightarrow> adder \<Rightarrow> adder" where
  "add_fragment sha1_of s st =
     (let sh = sha1_of (put_sha1 s);
          j = ix_find (ht st) (htinv st) sh
      in if j = 0 then
           (let hts = ht st @ [\<lparr>sha1 = sh, usize = int (sz s), csize = 0\<rparr>]
            in point_file (length (ht st))
                 (st\<lparr>ht := hts, frags := frags st + 1, htinv := ix_update hts (htinv st)\<rparr>))
         else point_file j (st\<lparr>sb := take (length (sb st) - sz s) (sb st)\<rparr>))"

text \<open>
  \<open>Read a fragment\<close> from the open file and add it; at \<open>EOF\<close> the file is closed
  and the next file is taken.
\<close>

definition read_and_add :: "(byte list \<Rightarrow> byte list) \<Rightarrow> byte list \<Rightarrow> adder \<Rightarrow> adder" where
  "read_and_add sha1_of inp st =
     (case read_fragment inp frag0 of
        (s, rest, eof) \<Rightarrow>
          (let st1 = add_fragment sha1_of s
                       (st\<lparr>sb := sb st @ put_sb s, inputsize := inputsize st + sz s\<rparr>)
           in if eof then st1\<lparr>in_file := None, fi := fi st1 + 1, fj := 0\<rparr>
              else st1\<lparr>in_file := Some rest\<rparr>))"

text \<open>
  One pass through the body of the loop. \<open>fs\<close> gives the bytes of the file of a name,
  or \<open>None\<close> when it cannot be opened; \<open>full\<close> stands for the tests (2) to (4) of the
  source on the size of \<open>sb\<close>.
\<close>

definition add_step ::
  "(byte list \<Rightarrow> byte list) \<Rightarrow> (byte list \<Rightarrow> byte list option) \<Rightarrow> (byte list \<Rightarrow> byte list) \<Rightarrow>
   (adder \<Rightarrow> bool) \<Rightarrow> adder \<Rightarrow> adder" where
  "add_step sha1_of fs ren full st =
     (if fi st = length (vf st) \<or> full st then
        (if 0 < frags st then flush_block st else st)
      else
        (case in_file st of
           Some inp \<Rightarrow> read_and_add sha1_of inp st
         | None \<Rightarrow>
             (let name = vf st ! fi st;
                  filename = ren name
              in if filename \<noteq> [] \<and> last filename = 47 then st\<lparr>fi := fi st + 1\<rparr>
                 else
                   (case fs filename of
                      None \<Rightarrow>
                        st\<lparr>dt := (dt st)(name \<mapsto>
                               (case dt st name of None \<Rightarrow> DT_default | Some d \<Rightarrow> d)\<lparr>edate := 0\<rparr>),
                           fi := fi st + 1\<rparr>
                    | Some inp \<Rightarrow> read_and_add sha1_of inp st))))"

text \<open>
  The loop, with a bound on the number of passes: \<open>None\<close> when the bound is reached
  before the loop ends.
\<close>

fun add_loop ::
  "nat \<Rightarrow> (byte list \<Rightarrow> byte list) \<Rightarrow> (byte list \<Rightarrow> byte list option) \<Rightarrow> (byte list \<Rightarrow> byte list) \<Rightarrow>
   (adder \<Rightarrow> bool) \<Rightarrow> adder \<Rightarrow> adder option" where
  "add_loop 0 sha1_of fs ren full st = None"
| "add_loop (Suc n) sha1_of fs ren full st =
     (if fi st < length (vf st) \<or> 0 < frags st
      then add_loop n sha1_of fs ren full (add_step sha1_of fs ren full st)
      else Some st)"

text \<open>
  The state before the loop, from the archive state after \<open>read_archive\<close> and
  \<open>read_args\<close>: \<open>HTIndex htinv(ht)\<close>, nothing pending, no file open.
\<close>

definition adder_init :: "jidac \<Rightarrow> byte list list \<Rightarrow> int \<Rightarrow> bool \<Rightarrow> adder" where
  "adder_init j names d fr =
     jidac.extend j \<lparr>vf = names, fi = 0, fj = 0, in_file = None, sb = [], frags = 0,
        htinv = HTIndex_new (ht j), jobs = [], date = d, fragile = fr, inputsize = 0\<rparr>"

subsection \<open>After the loop: \<open>Fill in compressed sizes in ht\<close>\<close>

text \<open>
  \<open>for (i=htsize; i<ht.size() && j<job.csize.size(); ++i) if (ht[i].csize==-1)
  ht[i].csize=job.csize[j++];\<close> where \<open>job.csize\<close> holds the sizes of the compressed
  blocks in the order in which the writer wrote them.
\<close>

function fill_csize :: "int list \<Rightarrow> nat \<Rightarrow> nat \<Rightarrow> HT list \<Rightarrow> HT list \<times> nat" where
  "fill_csize cs i j hts =
     (if i < length hts \<and> j < length cs then
        (if csize (hts ! i) = - 1
         then fill_csize cs (i + 1) (j + 1) (hts[i := (hts ! i)\<lparr>csize := cs ! j\<rparr>])
         else fill_csize cs (i + 1) j hts)
      else (hts, j))"
  by pat_completeness auto
termination
  by (relation "measure (\<lambda>(cs, i, j, hts). length hts - i)") auto

declare fill_csize.simps [simp del]

text \<open>
  Where the writer puts the blocks: they follow the transaction header, which ends at
  \<open>header_end\<close>, one after the other.
\<close>

fun block_offsets :: "int \<Rightarrow> int list \<Rightarrow> int list" where
  "block_offsets pos [] = []"
| "block_offsets pos (c # cs) = pos # block_offsets (pos + c) cs"

subsection \<open>The shape of the new part of the fragment table\<close>

text \<open>
  The values of \<open>csize\<close> that the loop leaves in the entries of the enqueued blocks (-1
  for the first fragment of a block, 0 for the others), the values after the sizes
  \<open>cs\<close> are filled in, and the IDs at which blocks of the given numbers of fragments
  start.
\<close>

definition block_locators :: "cjob list \<Rightarrow> int list" where
  "block_locators js = concat (map (\<lambda>jb. - 1 # replicate (cj_frags jb - 1) 0) js)"

fun filled_locators :: "int list \<Rightarrow> cjob list \<Rightarrow> int list" where
  "filled_locators (c # cs) (jb # js) = (c # replicate (cj_frags jb - 1) 0) @ filled_locators cs js"
| "filled_locators _ _ = []"

fun starts :: "nat \<Rightarrow> nat list \<Rightarrow> nat list" where
  "starts k [] = []"
| "starts k (n # ns) = k # starts (k + n) ns"

definition add_inv :: "nat \<Rightarrow> HT list \<Rightarrow> adder \<Rightarrow> bool" where
  "add_inv htsize old st \<longleftrightarrow>
     take htsize (ht st) = old \<and> length old = htsize \<and>
     map csize (drop htsize (ht st)) = block_locators (jobs st) @ replicate (frags st) 0 \<and>
     map cj_first (jobs st) = starts htsize (map cj_frags (jobs st)) \<and>
     (\<forall>jb \<in> set (jobs st). 0 < cj_frags jb)"

text \<open>
  A stand-in for SHA-1 in the examples: the first twenty bytes, padded with zeros. It
  tells the short fragments of the examples apart, as SHA-1 does.
\<close>

definition ex_sha1 :: "byte list \<Rightarrow> byte list" where
  "ex_sha1 bs = take 20 (bs @ replicate 20 0)"

definition ex_fs :: "byte list \<Rightarrow> byte list option" where
  "ex_fs name = (if name = [97] then Some [1, 2, 3] else if name = [98] then Some [4, 5, 6] else None)"

text \<open>
  An archive that holds the fragment of the bytes 1, 2, 3 already, as fragment 1 of a data
  block at 104.
\<close>

definition ex_archive :: jidac where
  "ex_archive = jidac_init\<lparr>ht := [HT_default, \<lparr>sha1 = ex_sha1 [1, 2, 3], usize = 3, csize = 104\<rparr>]\<rparr>"

section \<open>The transaction date of \<open>Jidac::add\<close>\<close>

text \<open>
  Division and remainder of C, which round towards zero, for a positive divisor.
\<close>

definition tdiv :: "int \<Rightarrow> int \<Rightarrow> int" where
  "tdiv a b = (if 0 \<le> a then a div b else - ((- a) div b))"

definition tmod :: "int \<Rightarrow> int \<Rightarrow> int" where
  "tmod a b = a - b * tdiv a b"

text \<open>
  A value of an expression of type \<open>int\<close>: the result is undefined (\<open>None\<close>) when it
  does not fit in 32 bits, since signed overflow is undefined in C.
\<close>

definition as_int :: "int \<Rightarrow> int option" where
  "as_int x = (if - (2 ^ 31) \<le> x \<and> x < 2 ^ 31 then Some x else None)"

text \<open>
  \<open>decimal_time\<close>: seconds since 1970 to \<open>YYYYMMDDHHMMSS\<close>. The argument is a
  \<open>time_t\<close> of 64 bits, and the number of terms of four years is an \<open>int\<close>.
  A statement \<open>t+=(t>=c)*k\<close> is \<open>step_up c k\<close>. The days of a term of four years are
  spread so that every year has 366 (\<open>insert Feb 29 on non leap years\<close>), then the days
  of a year so that every month has 31.
\<close>

definition step_up :: "int \<Rightarrow> int \<Rightarrow> int \<Rightarrow> int" where
  "step_up c k t = (if c \<le> t then t + k else t)"

definition leap_slots :: "int \<Rightarrow> int" where
  "leap_slots t = step_up 1157 1 (step_up 425 1 (step_up 59 1 t))"

definition month_slots :: "int \<Rightarrow> int" where
  "month_slots t =
     step_up 340 1 (step_up 278 1 (step_up 185 1 (step_up 123 1 (step_up 60 2 t))))"

definition decimal_time :: "int \<Rightarrow> int" where
  "decimal_time t =
     (if t \<le> 0 then - 1
      else (sint (word_of_int (t div 86400 div 1461) :: 32 word) * 4
              + leap_slots (t div 86400 mod 1461) div 366 + 1970) * 10000000000
           + (month_slots (leap_slots (t div 86400 mod 1461) mod 366) div 31 + 1) * 100000000
           + (month_slots (leap_slots (t div 86400 mod 1461) mod 366) mod 31 + 1) * 1000000
           + (t div 3600 mod 24) * 10000 + (t div 60 mod 60) * 100 + t mod 60)"

text \<open>
  \<open>unix_time\<close>: the fields of the decimal date are \<open>int\<close>s, and the seconds are
  computed in \<open>int\<close> before they become a \<open>time_t\<close>. The result is undefined when the
  month field is 0 (the index into \<open>days\<close> is -1 then) and when one of the products and
  sums does not fit.
\<close>

definition days :: "int list" where
  "days = [0, 31, 59, 90, 120, 151, 181, 212, 243, 273, 304, 334]"

definition unix_time :: "int \<Rightarrow> int option" where
  "unix_time d =
     (if d \<le> 0 then Some (- 1)
      else
        (let year = d div 10000000000 mod 10000;
             month = tmod (d div 100000000 mod 100 - 1) 12;
             day = d div 1000000 mod 100;
             hour = d div 10000 mod 100;
             mn = d div 100 mod 100;
             sec = d mod 100
         in if month < 0 then None
            else
              Option.bind (as_int ((day - 1 + days ! nat month
                      + (if year mod 4 = 0 \<and> 1 < month then 1 else 0)
                      + tdiv ((year - 1970) * 1461 + 1) 4) * 86400))
                (\<lambda>a. Option.bind (as_int (a + hour * 3600))
                  (\<lambda>b. Option.bind (as_int (b + mn * 60))
                    (\<lambda>c. as_int (c + sec))))))"

text \<open>
  \<open>Adjust date to maintain sequential order\<close>: the date of the new snapshot and what is
  written to \<open>stderr\<close>, from the snapshots read and the date of the clock.
\<close>

definition adjust_date :: "VER list \<Rightarrow> int \<Rightarrow> (int \<times> string list) option" where
  "adjust_date vs d =
     (if vs \<noteq> [] \<and> d \<le> ver_date (last vs)
      then map_option (\<lambda>t. (decimal_time (t + 1), [''Warning: adjusting date'']))
             (unix_time (ver_date (last vs)))
      else Some (d, []))"

section \<open>Properties of the chunker\<close>

lemma unat_ucast_byte: "unat (ucast (c::byte) :: 32 word) = unat c"
proof -
  have "unat c < 2 ^ 8" using unsigned_less[of c, where 'a=nat] by simp
  then have "unat c < 2 ^ 32" by simp
  then show ?thesis by (simp add: unsigned_ucast_eq take_bit_nat_eq_self)
qed

lemma unat_hash_mult:
  "unat ((x + ucast (c::byte) + 1) * (k :: 32 word)) = ((unat x + unat c + 1) * unat k) mod 2 ^ 32"
proof -
  have "unat (x + ucast c + 1) = (unat x + unat c + 1) mod 2 ^ 32"
    by (simp add: unat_word_ariths mod_simps unat_ucast_byte)
  then have "unat ((x + ucast c + 1) * k) = ((unat x + unat c + 1) mod 2 ^ 32 * unat k) mod 2 ^ 32"
    by (simp add: unat_word_ariths)
  then show ?thesis by (simp only: mod_mult_left_eq)
qed

lemma unat_K1: "unat (314159265 :: 32 word) = 314159265" by simp
lemma unat_K2: "unat (271828182 :: 32 word) = 271828182" by simp


lemma corr_frag0: "corr frag0 []"
  by (simp add: corr_def frag0_def spec_hash_run_def)

lemma corr_put_byte: 
  assumes "corr s pre" shows "corr (put_byte c s) (pre @ [c])"
proof -
  from assms have run: "spec_hash_run pre = (unat (h s), c1 s, o1 s)" and rest: "sz s = length pre" "put_sb s = pre" "put_sha1 s = pre"
    by (simp_all add: corr_def)
  have "spec_hash_run (pre @ [c]) = spec_hash_step (unat (h s), c1 s, o1 s) c"
    using run by (simp add: spec_hash_run_def)
  also have "\<dots> = (unat (h (put_byte c s)), c1 (put_byte c s), o1 (put_byte c s))"
    using unat_hash_mult[of "h s" c "314159265"] unat_hash_mult[of "h s" c "271828182"]
    by (auto simp add: spec_hash_step_def put_byte_def)
  finally show ?thesis using rest by (simp add: corr_def put_byte_def)
qed

lemma spec_hash_corr: "corr s pre \<Longrightarrow> spec_hash pre = unat (h s)"
  by (simp add: corr_def spec_hash_def) (metis fst_conv)

lemma at_boundary_corr:
  assumes "corr s pre"
  shows "at_boundary s \<longleftrightarrow> spec_boundary (pre @ cs) (length pre)"
  using spec_hash_corr[OF assms] assms
  by (simp add: at_boundary_def spec_boundary_def MIN_FRAGMENT_def MAX_FRAGMENT_def corr_def)

lemma read_fragment_spec:
  "read_fragment cs s = (s', rest, eof) \<Longrightarrow> corr s pre \<Longrightarrow>
   length pre \<le> sz s' \<and> sz s' \<le> length (pre @ cs) \<and> rest = drop (sz s') (pre @ cs) \<and>
   corr s' (take (sz s') (pre @ cs)) \<and>
   (\<forall>k. length pre < k \<and> k < sz s' \<longrightarrow> \<not> spec_boundary (pre @ cs) k) \<and>
   (if eof then sz s' = length (pre @ cs) \<and>
        (\<forall>k. length pre < k \<and> k \<le> length (pre @ cs) \<longrightarrow> \<not> spec_boundary (pre @ cs) k)
    else length pre < sz s' \<and> spec_boundary (pre @ cs) (sz s'))"
proof (induction cs arbitrary: s pre)
  case Nil
  then show ?case by (auto simp: corr_def)
next
  case (Cons c cs)
  let ?s1 = "put_byte c s"
  have c1: "corr ?s1 (pre @ [c])" using Cons.prems(2) by (rule corr_put_byte)
  have b: "at_boundary ?s1 \<longleftrightarrow> spec_boundary (pre @ c # cs) (Suc (length pre))"
    using at_boundary_corr[OF c1, of cs] by simp
  show ?case
  proof (cases "at_boundary ?s1")
    case True
    with Cons.prems(1) have eq: "s' = ?s1" "rest = cs" "eof = False" by simp_all
    have szs: "sz ?s1 = Suc (length pre)" using c1 by (simp add: corr_def)
    have no: "\<forall>k. length pre < k \<and> k < Suc (length pre) \<longrightarrow> \<not> spec_boundary (pre @ c # cs) k"
      by auto
    show ?thesis using True b c1 no by (simp add: eq szs)
  next
    case False
    with Cons.prems(1) have rf: "read_fragment cs ?s1 = (s', rest, eof)" by simp
    note IH = Cons.IH[OF rf c1, unfolded append_assoc append_Cons append_Nil length_append_singleton]
    let ?inp = "pre @ c # cs"
    from IH have i1: "Suc (length pre) \<le> sz s'" by blast
    from IH have 2: "sz s' \<le> length ?inp" by blast
    from IH have 3: "rest = drop (sz s') ?inp" by blast
    from IH have 4: "corr s' (take (sz s') ?inp)" by blast
    from IH have i5: "\<forall>k. Suc (length pre) < k \<and> k < sz s' \<longrightarrow> \<not> spec_boundary ?inp k" by blast
    from IH have i6: "if eof then sz s' = length ?inp \<and>
        (\<forall>k. Suc (length pre) < k \<and> k \<le> length ?inp \<longrightarrow> \<not> spec_boundary ?inp k)
        else Suc (length pre) < sz s' \<and> spec_boundary ?inp (sz s')" by blast
    have nb: "\<not> spec_boundary ?inp (Suc (length pre))" using False b by simp
    have k: "length pre < k \<Longrightarrow> k = Suc (length pre) \<or> Suc (length pre) < k" for k by arith
    have 1: "length pre \<le> sz s'" using i1 by arith
    have 5: "\<forall>k. length pre < k \<and> k < sz s' \<longrightarrow> \<not> spec_boundary ?inp k"
      using k nb i5 by blast
    have 6: "if eof then sz s' = length ?inp \<and>
        (\<forall>k. length pre < k \<and> k \<le> length ?inp \<longrightarrow> \<not> spec_boundary ?inp k)
        else length pre < sz s' \<and> spec_boundary ?inp (sz s')"
    proof (cases eof)
      case True
      with i6 have a: "sz s' = length ?inp" and
        bb: "\<forall>k. Suc (length pre) < k \<and> k \<le> length ?inp \<longrightarrow> \<not> spec_boundary ?inp k" by simp_all
      have "\<forall>k. length pre < k \<and> k \<le> length ?inp \<longrightarrow> \<not> spec_boundary ?inp k"
        using k nb bb by blast
      with a True show ?thesis by simp
    next
      case False
      with i6 have "Suc (length pre) < sz s'" "spec_boundary ?inp (sz s')" by simp_all
      with False show ?thesis by simp
    qed
    show ?thesis using 1 2 3 4 5 6 by blast
  qed
qed

text \<open>
  Claim C2. A run of the fragment loop on what is left of a file consumes a prefix of it,
  appends exactly these bytes to the pending block and to the SHA-1 object, and its hash is
  the hash of the specification's update rule (\<open>h := (h+c+1)*314159265 mod 2^32\<close> when
  \<open>c = o1[c_prev]\<close>, \<open>h := (h+c+1)*271828182 mod 2^32\<close> otherwise, then
  \<open>o1[c_prev] := c\<close>). The fragment ends at the first position where the rule gives
  a boundary (hash below 65536 and length at least 4096, or length 520192): no position
  before the end is a boundary, and the loop ends without \<open>EOF\<close> exactly at a boundary;
  it ends with \<open>EOF\<close> exactly when the file is exhausted with no boundary in it.
\<close>

theorem chunker_boundary_rule:
  assumes "read_fragment inp frag0 = (s, rest, eof)"
  shows "sz s \<le> length inp \<and> put_sb s = take (sz s) inp \<and> put_sha1 s = take (sz s) inp \<and>
    rest = drop (sz s) inp \<and>
    unat (h s) = spec_hash (take (sz s) inp) \<and>
    (\<forall>k. 0 < k \<and> k < sz s \<longrightarrow> \<not> spec_boundary inp k) \<and>
    (if eof then sz s = length inp \<and> (\<forall>k. 0 < k \<and> k \<le> length inp \<longrightarrow> \<not> spec_boundary inp k)
     else 0 < sz s \<and> spec_boundary inp (sz s))"
proof -
  note R = read_fragment_spec[OF assms corr_frag0]
  have c: "corr s (take (sz s) inp)" using R by simp
  have 1: "put_sb s = take (sz s) inp" "put_sha1 s = take (sz s) inp" using c by (simp_all add: corr_def)
  have 2: "unat (h s) = spec_hash (take (sz s) inp)" using spec_hash_corr[OF c] by simp
  show ?thesis using R 1 2 by (cases eof) simp_all
qed

theorem chunker_boundary_rule_witness:
  "read_fragment [1, 2, 3] frag0 = (fst (read_fragment [1, 2, 3] frag0), [], True) \<and>
   sz (fst (read_fragment [1, 2, 3] frag0)) = 3 \<and>
   put_sb (fst (read_fragment [1, 2, 3] frag0)) = [1, 2, 3] \<and>
   unat (h (fst (read_fragment [1, 2, 3] frag0))) = spec_hash [1, 2, 3] \<and>
   spec_hash [1, 2, 3] = 2724114740 \<and>
   \<not> spec_boundary [1, 2, 3] 2"
proof -
  let ?r = "read_fragment [1, 2, 3] frag0"
  have run: "?r = (fst ?r, [], True)"
    by (simp add: Let_def frag0_def put_byte_def at_boundary_def MIN_FRAGMENT_def MAX_FRAGMENT_def)
  have hv: "spec_hash [1, 2, 3] = 2724114740"
    by (simp add: spec_hash_def spec_hash_run_def spec_hash_step_def)
  note R = chunker_boundary_rule[OF run]
  from R have n: "sz (fst ?r) = 3"
    by (simp del: read_fragment.simps)
  from R n have b: "put_sb (fst ?r) = [1, 2, 3]" and hh: "unat (h (fst ?r)) = spec_hash [1, 2, 3]"
    by (simp_all del: read_fragment.simps)
  from R have "\<forall>k. 0 < k \<and> k < sz (fst ?r) \<longrightarrow> \<not> spec_boundary [1, 2, 3] k"
    by blast
  with n have nb: "\<not> spec_boundary [1, 2, 3] 2"
    by simp
  from run n b hh hv nb show ?thesis
    by blast
qed

section \<open>Properties of the journal reader\<close>

lemma read_blocks_append:
  "read_blocks sha1_of (pre @ bs) st =
     (case read_blocks sha1_of pre st of Next st1 \<Rightarrow> read_blocks sha1_of bs st1 | r \<Rightarrow> r)"
proof (induction pre arbitrary: st)
  case Nil
  then show ?case by simp
next
  case (Cons x pre)
  show ?case
  proof (cases x)
    case (Block b)
    then show ?thesis using Cons.IH by (cases "jidac_block sha1_of b st") simp_all
  next
    case (Damaged pos e)
    then show ?thesis using Cons.IH by simp
  qed
qed

lemma c_block_is_header:
  assumes "jkind b = CHR ''c''" "19000000000000 \<le> fdate b" "fdate b < 30000000000000"
    "pass st \<noteq> RECOVER"
  shows "jidac_block sha1_of b st =
     (case transaction_header b st of Next st1 \<Rightarrow> caught b (st1, None) | r \<Rightarrow> r)"
  using assms by (simp add: jidac_block_def decompressed_def)

lemma header_incomplete:
  assumes "length (os b) = 8" "btol (os b) < 0"
  shows "transaction_header b st =
     Returned (block_offset st)
       (if until_rejects b st then st\<lparr>data_offset := int (tell_seg b) + 1\<rparr>
        else say ''Incomplete transaction ignored'' (st\<lparr>data_offset := int (tell_seg b) + 1\<rparr>))"
  using assms by (simp add: transaction_header_def Let_def say_def)

lemma header_rejected:
  assumes "length (os b) = 8" "until_rejects b st"
  shows "transaction_header b st = Returned (block_offset st) (st\<lparr>data_offset := int (tell_seg b) + 1\<rparr>)"
  using assms by (simp add: transaction_header_def Let_def say_def)

lemma header_accepted:
  assumes "length (os b) = 8" "\<not> until_rejects b st" "0 \<le> btol (os b)"
  shows "\<exists>st1. transaction_header b st = Next st1 \<and> ht st1 = ht st \<and> dt st1 = dt st \<and>
     pass st1 = pass st \<and> data_offset st1 = int (tell_seg b) + 1 \<and> version st1 = version st \<and>
     ver st1 = ver st @ [VER_default\<lparr>ver_firstFragment := int (length (ht st)),
                   ver_offset := block_offset st, ver_date := fdate b\<rparr>]"
  using assms by (cases "btol (os b) = 0") (simp_all add: transaction_header_def Let_def say_def)

subsection \<open>What the index blocks do to the fragment table\<close>

lemma quiet_step_refl: "quiet_step st st"
  unfolding quiet_step_def by (intro conjI exI[of _ 0]) simp_all

lemma quiet_stepI:
  assumes "ht st' = ht st @ replicate n HT_default"
    "pass st' = (if n = 0 then pass st else ERR)" "data_offset st' = data_offset st"
  shows "quiet_step st st'"
  unfolding quiet_step_def using assms by blast

lemma quiet_stepE:
  assumes "quiet_step st st'"
  obtains n where "ht st' = ht st @ replicate n HT_default"
    "pass st' = (if n = 0 then pass st else ERR)" "data_offset st' = data_offset st"
  using assms unfolding quiet_step_def by blast

lemma quiet_step_length:
  assumes "quiet_step a b"
  shows "length (ht a) \<le> length (ht b)"
proof -
  from assms obtain n where "ht b = ht a @ replicate n HT_default" by (rule quiet_stepE)
  then have "length (ht b) = length (ht a) + n" by simp
  then show ?thesis by simp
qed

lemma quiet_step_trans:
  assumes "quiet_step a b" "quiet_step b c"
  shows "quiet_step a c"
proof -
  from assms(1) obtain n where 1: "ht b = ht a @ replicate n HT_default"
    "pass b = (if n = 0 then pass a else ERR)" "data_offset b = data_offset a"
    by (rule quiet_stepE)
  from assms(2) obtain m where 2: "ht c = ht b @ replicate m HT_default"
    "pass c = (if m = 0 then pass b else ERR)" "data_offset c = data_offset b"
    by (rule quiet_stepE)
  have h: "ht c = ht a @ replicate (n + m) HT_default"
    unfolding 2(1) 1(1) by (simp add: replicate_add)
  have p: "pass c = (if n + m = 0 then pass a else ERR)"
    unfolding 2(2) 1(2) by simp
  have d: "data_offset c = data_offset a" unfolding 2(3) 1(3) ..
  from h p d show ?thesis by (rule quiet_stepI)
qed

lemma quiet_step_normal:
  assumes "quiet_step st st'"
  shows "(pass st' = pass st \<or> pass st' = ERR) \<and> data_offset st' = data_offset st \<and>
         (pass st' = NORMAL \<longrightarrow> ht st' = ht st)"
proof -
  from assms obtain n where 1: "ht st' = ht st @ replicate n HT_default"
    "pass st' = (if n = 0 then pass st else ERR)" "data_offset st' = data_offset st"
    by (rule quiet_stepE)
  show ?thesis
  proof (cases "n = 0")
    case True
    with 1 show ?thesis by simp
  next
    case False
    with 1 show ?thesis by simp
  qed
qed

lemma grow_ht_eq: "grow_ht k hts = hts @ replicate (Suc k - length hts) HT_default"
proof (induction k hts rule: grow_ht.induct)
  case (1 k hts)
  show ?case
  proof (cases "length hts \<le> k")
    case True
    then have "grow_ht k hts = grow_ht k (hts @ [HT_default])"
      by (subst grow_ht.simps) simp
    also have "\<dots> = (hts @ [HT_default]) @ replicate (Suc k - length (hts @ [HT_default])) HT_default"
      using "1.IH"[OF True] .
    also have "\<dots> = hts @ replicate (Suc k - length hts) HT_default"
      using True by (simp add: Suc_diff_le flip: replicate_Suc)
    finally show ?thesis .
  next
    case False
    then show ?thesis by (subst grow_ht.simps) simp
  qed
qed

lemma ptrs_checked_mono:
  assumes "ptrs_checked st None v" "length (ht st) \<le> length (ht st')"
  shows "ptrs_checked st' e v"
  using assms unfolding ptrs_checked_def by fastforce

text \<open>One pointer: it is stored first, then checked.\<close>

lemma read_ptr_rejects:
  assumes "p = 0 \<or> length (ht st) + 2 ^ 24 \<le> p"
  shows "read_ptr p i st v = ((st, v\<lparr>dtv_ptr := (dtv_ptr v)[i := p]\<rparr>), Some ''bad fragment ID'')"
  using assms by (auto simp: read_ptr_def Let_def)

lemma read_ptr_accepts:
  assumes "1 \<le> p" "p < length (ht st) + 2 ^ 24" "read_ptr p i st v = ((st', v'), e)"
  shows "e = None \<and> ht st' = ht st @ replicate (Suc p - length (ht st)) HT_default \<and>
         pass st' = (if length (ht st) \<le> p then ERR else pass st) \<and>
         data_offset st' = data_offset st \<and> dt st' = dt st \<and>
         dtv_ptr v' = (dtv_ptr v)[i := p]"
  using assms by (auto simp: read_ptr_def Let_def grow_ht_eq split: if_splits)

lemma read_ptr_step:
  assumes "read_ptr p i st v = ((st', v'), e)"
  shows "quiet_step st st' \<and> dt st' = dt st \<and> dtv_ptr v' = (dtv_ptr v)[i := p] \<and>
         (e = None \<or> e = Some ''bad fragment ID'') \<and>
         (e = None \<longrightarrow> p < length (ht st')) \<and>
         (e \<noteq> None \<longrightarrow> ht st' = ht st \<and> (p = 0 \<or> length (ht st) + 2 ^ 24 \<le> p))"
proof (cases "p = 0 \<or> length (ht st) + 2 ^ 24 \<le> p")
  case True
  from read_ptr_rejects[OF True, of i v] assms have "st' = st"
    "v' = v\<lparr>dtv_ptr := (dtv_ptr v)[i := p]\<rparr>" "e = Some ''bad fragment ID''" by simp_all
  with True show ?thesis by (simp add: quiet_step_refl)
next
  case False
  then have "1 \<le> p" "p < length (ht st) + 2 ^ 24" by simp_all
  note ac = read_ptr_accepts[OF this assms]
  have "quiet_step st st'"
  proof (rule quiet_stepI)
    show "ht st' = ht st @ replicate (Suc p - length (ht st)) HT_default" using ac by simp
    show "pass st' = (if Suc p - length (ht st) = 0 then pass st else ERR)" using ac by auto
    show "data_offset st' = data_offset st" using ac by simp
  qed
  moreover have "p < length (ht st')" using ac by simp
  ultimately show ?thesis using ac by simp
qed

lemma read_ptrs_step:
  assumes "read_ptrs bs ni i s st v = ((st', v', s'), e)" "ptrs_checked st None v"
  shows "quiet_step st st' \<and> dt st' = dt st \<and> (e = None \<or> e = Some ''bad fragment ID'') \<and>
         ptrs_checked st' e v'"
  using assms
proof (induction bs ni i s st v rule: read_ptrs.induct)
  case (1 bs ni i s st v)
  show ?case
  proof (cases "i < ni \<and> s + 4 \<le> length bs")
    case False
    then have "read_ptrs bs ni i s st v = ((st, v, s), None)" by (subst read_ptrs.simps) auto
    with "1.prems" show ?thesis by (auto simp: quiet_step_refl)
  next
    case True
    let ?p = "btou (drop s bs)"
    obtain st1 v1 r where rp: "read_ptr ?p i st v = ((st1, v1), r)"
      by (metis surj_pair)
    note rs = read_ptr_step[OF rp]
    have q1: "quiet_step st st1" and d1: "dt st1 = dt st"
      and v1: "dtv_ptr v1 = (dtv_ptr v)[i := ?p]" using rs by simp_all
    have sub: "set (dtv_ptr v1) \<subseteq> insert ?p (set (dtv_ptr v))"
      unfolding v1 by (rule set_update_subset_insert)
    note l1 = quiet_step_length[OF q1]
    show ?thesis
    proof (cases r)
      case None
      have eq: "read_ptrs bs ni i s st v = read_ptrs bs ni (i + 1) (s + 4) st1 v1"
        using True rp None by (subst read_ptrs.simps) simp
      have lt: "?p < length (ht st1)" using rs None by simp
      have c1: "ptrs_checked st1 None v1"
        unfolding ptrs_checked_def
      proof
        fix p assume "p \<in> set (dtv_ptr v1)"
        with sub have "p = ?p \<or> p \<in> set (dtv_ptr v)" by auto
        then show "p = 0 \<or> p < length (ht st1) \<or> (None \<noteq> (None :: string option) \<and> length (ht st1) + 2 ^ 24 \<le> p)"
          using lt "1.prems"(2) l1 unfolding ptrs_checked_def by fastforce
      qed
      from "1.prems"(1) eq have "read_ptrs bs ni (i + 1) (s + 4) st1 v1 = ((st', v', s'), e)" by simp
      from "1.IH"[OF True rp[symmetric] refl None this c1] q1 d1 show ?thesis
        by (auto intro: quiet_step_trans)
    next
      case (Some m)
      have eq: "read_ptrs bs ni i s st v = ((st1, v1, s + 4), Some m)"
        using True rp Some by (subst read_ptrs.simps) simp
      with "1.prems"(1) have e: "st' = st1" "v' = v1" "e = Some m" by simp_all
      have bad: "ht st1 = ht st" "?p = 0 \<or> length (ht st) + 2 ^ 24 \<le> ?p"
        and m: "r = Some ''bad fragment ID''"
        using rs Some by auto
      have "ptrs_checked st1 (Some m) v1"
        unfolding ptrs_checked_def
      proof
        fix p assume "p \<in> set (dtv_ptr v1)"
        with sub have "p = ?p \<or> p \<in> set (dtv_ptr v)" by auto
        then show "p = 0 \<or> p < length (ht st1) \<or> (Some m \<noteq> None \<and> length (ht st1) + 2 ^ 24 \<le> p)"
          using bad "1.prems"(2) unfolding ptrs_checked_def by fastforce
      qed
      with e q1 d1 m Some show ?thesis by simp
    qed
  qed
qed

lemma versions_store_dtv:
  "versions (store_dtv name v st) n = versions st n @ (if n = name then [v] else [])"
  by (simp add: versions_def store_dtv_def Let_def DT_default_def split: option.splits)

lemma store_dtv_frame:
  "ht (store_dtv name v st) = ht st" "pass (store_dtv name v st) = pass st"
  "data_offset (store_dtv name v st) = data_offset st"
  by (simp_all add: store_dtv_def Let_def)

lemma store_dtv_quiet: "quiet_step st x \<Longrightarrow> quiet_step st (store_dtv name v x)"
  unfolding quiet_step_def store_dtv_frame .

lemma store_dtv_checked: "ptrs_checked st e v \<Longrightarrow> ptrs_checked (store_dtv name w st) e v"
  by (simp add: ptrs_checked_def store_dtv_frame)

text \<open>
  One record: it appends one version to the file it names, whose pointers are checked.
\<close>

lemma index_record_step:
  assumes "index_record bs s st = Some ((st', s'), e)"
  shows "quiet_step st st' \<and> (e = None \<or> e = Some ''bad fragment ID'') \<and>
     (\<exists>name v. (\<forall>n. versions st' n = versions st n @ (if n = name then [v] else [])) \<and>
        ptrs_checked st' e v)"
proof -
  have z: "0 \<in> set (drop (s + 8) bs)"
    using assms by (auto simp: index_record_def split: if_splits)
  define name where "name = takeWhile (\<lambda>c. c \<noteq> 0) (drop (s + 8) bs)"
  define s1 where "s1 = s + 8 + length name + 1"
  define d8 where "d8 = btol (drop s bs)"
  define st1 where "st1 = st\<lparr>ver := upd_back
                  (\<lambda>r. if d8 \<noteq> 0 then r\<lparr>ver_updates := ver_updates r + 1\<rparr>
                        else r\<lparr>ver_deletes := ver_deletes r + 1\<rparr>) (ver st)\<rparr>"
  have q1: "quiet_step st st1" by (rule quiet_stepI[of _ _ 0]) (simp_all add: st1_def)
  have vs1: "versions st1 n = versions st n" for n by (simp add: st1_def versions_def)
  obtain s2 a where ra: "read_attr bs (btou (drop s1 bs)) 0 (s1 + 4) 0 = (s2, a)"
    by (metis surj_pair)
  note defs = index_record_def Let_def DTV_default_def name_def[symmetric] s1_def[symmetric]
    d8_def[symmetric] st1_def[symmetric]
  have plain: "quiet_step st (store_dtv name v st1) \<and>
     (\<exists>nm w. (\<forall>n. versions (store_dtv name v st1) n = versions st n @ (if n = nm then [w] else []))
        \<and> ptrs_checked (store_dtv name v st1) None w)" if "dtv_ptr v = []" for v
  proof -
    have "ptrs_checked (store_dtv name v st1) None v" using that by (simp add: ptrs_checked_def)
    moreover have "\<forall>n. versions (store_dtv name v st1) n = versions st n @ (if n = name then [v] else [])"
      by (simp add: versions_store_dtv vs1)
    ultimately show ?thesis using store_dtv_quiet[OF q1] by blast
  qed
  show ?thesis
  proof (cases "d8 \<noteq> 0 \<and> s1 + 8 \<le> length bs")
    case False
    with assms z have "st' = store_dtv name \<lparr>dtv_date = d8, dtv_size = 0, dtv_attr = 0,
           dtv_ptr = [], dtv_version = int (length (ver st)) - 1\<rparr> st1" "e = None"
      unfolding defs by (auto split: if_splits)
    with plain[of "\<lparr>dtv_date = d8, dtv_size = 0, dtv_attr = 0,
           dtv_ptr = [], dtv_version = int (length (ver st)) - 1\<rparr>"] show ?thesis by simp
  next
    case T1: True
    show ?thesis
    proof (cases "s2 + 4 \<le> length bs")
      case False
      with assms z T1 ra have "st' = store_dtv name \<lparr>dtv_date = d8, dtv_size = 0, dtv_attr = a,
           dtv_ptr = [], dtv_version = int (length (ver st)) - 1\<rparr> st1" "e = None"
        unfolding defs by (auto split: if_splits)
      with plain[of "\<lparr>dtv_date = d8, dtv_size = 0, dtv_attr = a,
           dtv_ptr = [], dtv_version = int (length (ver st)) - 1\<rparr>"] show ?thesis by simp
    next
      case True
      let ?v2 = "\<lparr>dtv_date = d8, dtv_size = 0, dtv_attr = a,
                         dtv_ptr = replicate (btou (drop s2 bs)) 0,
                         dtv_version = int (length (ver st)) - 1\<rparr>"
      obtain st2 v3 s3 e3 where rp: "read_ptrs bs (btou (drop s2 bs)) 0 (s2 + 4) st1 ?v2 = ((st2, v3, s3), e3)"
        by (metis surj_pair)
      have c2: "ptrs_checked st1 None ?v2" by (simp add: ptrs_checked_def)
      note rs = read_ptrs_step[OF rp c2]
      from assms z T1 True ra rp have r: "st' = store_dtv name v3 st2" "e = e3"
        unfolding defs by (auto split: if_splits)
      have "quiet_step st st2" using q1 rs by (blast intro: quiet_step_trans)
      then have a1: "quiet_step st st'" unfolding r by (rule store_dtv_quiet)
      have "versions st2 n = versions st n" for n using rs vs1[of n] by (simp add: versions_def)
      then have a2: "\<forall>n. versions st' n = versions st n @ (if n = name then [v3] else [])"
        unfolding r by (simp add: versions_store_dtv)
      have a3: "ptrs_checked st' e v3" unfolding r using rs by (simp add: store_dtv_checked)
      have a4: "e = None \<or> e = Some ''bad fragment ID''" using rs r by simp
      from a1 a2 a3 a4 show ?thesis by blast
    qed
  qed
qed

text \<open>The records of a block.\<close>

lemma index_records_step:
  assumes "index_records bs s st = Some (st', e)"
  shows "quiet_step st st' \<and> (e = None \<or> e = Some ''bad fragment ID'') \<and>
     (\<forall>n. \<exists>new. versions st' n = versions st n @ new \<and> (\<forall>v \<in> set new. ptrs_checked st' e v))"
  using assms
proof (induction bs s st rule: index_records.induct)
  case (1 bs s st)
  show ?case
  proof (cases "s + 9 \<le> length bs")
    case False
    then have "index_records bs s st = Some (st, None)" by (subst index_records.simps) simp
    with "1.prems" show ?thesis by (auto simp: quiet_step_refl)
  next
    case True
    from True "1.prems" obtain st1 s1 r where ir: "index_record bs s st = Some ((st1, s1), r)"
      by (subst (asm) index_records.simps) (auto split: option.splits)
    from index_record_step[OF ir] obtain name v where
      q1: "quiet_step st st1" and r: "r = None \<or> r = Some ''bad fragment ID''"
      and vs: "\<forall>n. versions st1 n = versions st n @ (if n = name then [v] else [])"
      and ck: "ptrs_checked st1 r v" by blast
    show ?thesis
    proof (cases r)
      case None
      have eq: "index_records bs s st = index_records bs s1 st1"
        using True ir None by (subst index_records.simps) simp
      with "1.prems" have "index_records bs s1 st1 = Some (st', e)" by simp
      from "1.IH"[OF True ir refl refl None this]
      have q2: "quiet_step st1 st'" and e: "e = None \<or> e = Some ''bad fragment ID''"
        and vs2: "\<forall>n. \<exists>new. versions st' n = versions st1 n @ new \<and> (\<forall>v \<in> set new. ptrs_checked st' e v)"
        by blast+
      have ck': "ptrs_checked st' e v"
        using ck None quiet_step_length[OF q2] by (auto intro: ptrs_checked_mono)
      have "\<exists>new. versions st' n = versions st n @ new \<and> (\<forall>v \<in> set new. ptrs_checked st' e v)" for n
      proof -
        from vs2 obtain new where n: "versions st' n = versions st1 n @ new"
          "\<forall>v \<in> set new. ptrs_checked st' e v" by blast
        let ?new = "(if n = name then [v] else []) @ new"
        have "versions st' n = versions st n @ ?new" using n(1) vs by simp
        moreover have "\<forall>v \<in> set ?new. ptrs_checked st' e v" using n(2) ck' by auto
        ultimately show ?thesis by blast
      qed
      with quiet_step_trans[OF q1 q2] e show ?thesis by blast
    next
      case (Some m)
      have eq: "index_records bs s st = Some (st1, Some m)"
        using True ir Some by (subst index_records.simps) simp
      with "1.prems" have e: "st' = st1" "e = r" using Some by simp_all
      have "\<exists>new. versions st' n = versions st n @ new \<and> (\<forall>v \<in> set new. ptrs_checked st' e v)" for n
      proof -
        let ?new = "if n = name then [v] else []"
        have "versions st' n = versions st n @ ?new" using vs e by simp
        moreover have "\<forall>v \<in> set ?new. ptrs_checked st' e v" using ck e by simp
        ultimately show ?thesis by blast
      qed
      with q1 r e show ?thesis by blast
    qed
  qed
qed

subsection \<open>What a fragment table appends\<close>



lemma ht_entry_length: "length (ht st) \<le> length (ht (fst (ht_entry b i st)))"
  by (simp add: ht_entry_def Let_def grow_ht_eq)

lemma ht_entries_length: "length (ht st) \<le> length (ht (fst (ht_entries b n i st)))"
proof (induction b n i st rule: ht_entries.induct)
  case (1 b n i st)
  show ?case
  proof (cases "i < n")
    case False
    then have "ht_entries b n i st = (st, None)" by (subst ht_entries.simps) simp
    then show ?thesis by simp
  next
    case True
    obtain st1 r where he: "ht_entry b i st = (st1, r)" by (cases "ht_entry b i st")
    have l1: "length (ht st) \<le> length (ht st1)" using ht_entry_length[of st b i] he by simp
    show ?thesis
    proof (cases r)
      case None
      have eq: "ht_entries b n i st = ht_entries b n (i + 1) st1"
        using True he None by (subst ht_entries.simps) simp
      show ?thesis using "1.IH"[OF True he[symmetric] None] l1 by (simp add: eq)
    next
      case (Some e)
      have eq: "ht_entries b n i st = (st1, Some e)"
        using True he Some by (subst ht_entries.simps) simp
      show ?thesis using l1 by (simp add: eq)
    qed
  qed
qed


lemma ht_entries_pass:
  "pass (fst (ht_entries b n i st)) = pass st \<and>
   data_offset (fst (ht_entries b n i st)) = data_offset st"
proof (induction b n i st rule: ht_entries.induct)
  case (1 b n i st)
  show ?case
  proof (cases "i < n")
    case False
    then have "ht_entries b n i st = (st, None)" by (subst ht_entries.simps) simp
    then show ?thesis by simp
  next
    case True
    obtain st1 r where he: "ht_entry b i st = (st1, r)" by (cases "ht_entry b i st")
    have fr: "pass st1 = pass st" "data_offset st1 = data_offset st"
      using he by (auto simp: ht_entry_def Let_def split: if_splits)
    show ?thesis
    proof (cases r)
      case None
      have eq: "ht_entries b n i st = ht_entries b n (i + 1) st1"
        using True he None by (subst ht_entries.simps) simp
      show ?thesis using "1.IH"[OF True he[symmetric] None] fr by (simp add: eq)
    next
      case (Some e)
      have eq: "ht_entries b n i st = (st1, Some e)"
        using True he Some by (subst ht_entries.simps) simp
      show ?thesis using fr by (simp add: eq)
    qed
  qed
qed

lemma fragment_table_pass:
  "pass (fst (fragment_table b st)) = (if length (ht st) \<noteq> unat (num b) then ERR else pass st)"
proof -
  let ?st1 = "if length (ht st) \<noteq> unat (num b)
              then (say ''Unordered fragment tables'' st)\<lparr>pass := ERR\<rparr> else st"
  let ?n = "(length (os b) - 4) div 24"
  obtain st2 r where he: "ht_entries b ?n 0 ?st1 = (st2, r)" by (cases "ht_entries b ?n 0 ?st1")
  have "pass st2 = pass ?st1" using ht_entries_pass[of b ?n 0 ?st1] he by simp
  then show ?thesis using he
    by (cases r) (simp_all add: fragment_table_def Let_def say_def)
qed

lemma fragment_table_length:
  "length (ht st) \<le> length (ht (fst (fragment_table b st)))"
proof -
  let ?st1 = "if length (ht st) \<noteq> unat (num b)
              then (say ''Unordered fragment tables'' st)\<lparr>pass := ERR\<rparr> else st"
  let ?n = "(length (os b) - 4) div 24"
  obtain st2 r where he: "ht_entries b ?n 0 ?st1 = (st2, r)" by (cases "ht_entries b ?n 0 ?st1")
  have "length (ht ?st1) \<le> length (ht st2)" using ht_entries_length[of ?st1 b ?n 0] he by simp
  moreover have "length (ht ?st1) = length (ht st)" by (simp add: say_def)
  ultimately show ?thesis using he
    by (cases r) (simp_all add: fragment_table_def Let_def)
qed


subsection \<open>The blocks of the first pass\<close>


lemma jidac_block_first:
  assumes "pass st \<noteq> RECOVER"
  shows "jidac_block sha1_of b st =
     (if is_header b then
        (case transaction_header b st of Next st1 \<Rightarrow> caught b (st1, None) | r \<Rightarrow> r)
      else if is_table b then caught b (fragment_table b st)
      else if jkind b = CHR ''i'' then
        (case index_block b st of None \<Rightarrow> Overrun | Some r \<Rightarrow> caught b r)
      else caught b (count_error (say ''Bad JIDAC block ignored'' st), None))"
  using assms by (simp add: jidac_block_def decompressed_def is_header_def is_table_def)

lemma transaction_header_frame:
  "transaction_header b st = Next st1 \<Longrightarrow>
     ht st1 = ht st \<and> pass st1 = pass st \<and> data_offset st1 = int (tell_seg b) + 1"
  "transaction_header b st = Returned r st1 \<Longrightarrow>
     ht st1 = ht st \<and> pass st1 = pass st \<and> dt st1 = dt st \<and> ver st1 = ver st \<and> r = block_offset st"
  by (auto simp: transaction_header_def Let_def say_def split: if_splits option.splits)

lemma caught_frame:
  "caught b (x, r) = Next st1 \<Longrightarrow>
     ht st1 = ht x \<and> pass st1 = pass x \<and> data_offset st1 = data_offset x"
  by (cases r) (auto simp: caught_def count_error_def say_def)

lemma caught_Next: "\<exists>st1. caught b xr = Next st1"
  by (cases xr; cases "snd xr") (auto simp: caught_def)


lemma caught_not_returned: "caught b xr \<noteq> Returned r s"
  by (cases xr; cases "snd xr") (auto simp: caught_def)

lemma caught_not_segfault: "caught b xr \<noteq> Segfault"
  by (cases xr; cases "snd xr") (auto simp: caught_def)

lemma index_block_step:
  assumes "index_block b st = Some (x, r)"
  shows "quiet_step st x"
  using index_records_step[of "os b" 0 st x r] assms by (simp add: index_block_def)

lemma index_block_Next:
  assumes "(case index_block b st of None \<Rightarrow> Overrun | Some r \<Rightarrow> caught b r) = Next st'"
  obtains x r where "index_block b st = Some (x, r)" "caught b (x, r) = Next st'"
  using assms by (cases "index_block b st") auto

lemma returned_is_header:
  assumes "jidac_block sha1_of b st = Returned r st'" "pass st \<noteq> RECOVER"
  shows "is_header b \<and> transaction_header b st = Returned r st'"
proof -
  note jb = jidac_block_first[OF assms(2), of sha1_of b]
  have hd: "is_header b"
    using assms(1) jb by (auto simp: caught_not_returned split: if_splits option.splits)
  with assms(1) jb have "transaction_header b st = Returned r st'"
    by (cases "transaction_header b st") (simp_all add: caught_not_returned)
  with hd show ?thesis by simp
qed

lemma fragment_table_data_offset:
  "0 < data_offset st \<Longrightarrow> 0 < data_offset (fst (fragment_table b st))"
proof -
  assume pos: "0 < data_offset st"
  let ?st1 = "if length (ht st) \<noteq> unat (num b)
          then (say ''Unordered fragment tables'' st)\<lparr>pass := ERR\<rparr> else st"
  let ?n = "(length (os b) - 4) div 24"
  obtain st2 r2 where he: "ht_entries b ?n 0 ?st1 = (st2, r2)" by (cases "ht_entries b ?n 0 ?st1")
  have "data_offset st2 = data_offset ?st1" using ht_entries_pass[of b ?n 0 ?st1] he by simp
  moreover have "data_offset ?st1 = data_offset st" by (simp add: say_def)
  ultimately show ?thesis using he pos
    by (cases r2) (auto simp: fragment_table_def Let_def)
qed

text \<open>A block of the first pass, whatever the pass.\<close>

lemma block_first_pass:
  assumes "state_of (jidac_block sha1_of b st) = Some st'" "pass st \<noteq> RECOVER"
  shows "(pass st' = pass st \<or> pass st' = ERR) \<and> length (ht st) \<le> length (ht st') \<and>
         (0 < data_offset st \<longrightarrow> 0 < data_offset st')"
proof (cases "jidac_block sha1_of b st")
  case Segfault
  with assms(1) show ?thesis by simp
next
  case Overrun
  with assms(1) show ?thesis by simp
next
  case (Threw m)
  with assms(1) show ?thesis by simp
next
  case (Returned r st1)
  with assms(1) have eq: "st1 = st'" by simp
  from returned_is_header[OF Returned assms(2)] have "transaction_header b st = Returned r st1" by simp
  then have "ht st1 = ht st" "pass st1 = pass st" "0 < data_offset st1"
    by (auto simp: transaction_header_def Let_def say_def split: if_splits option.splits)
  with eq show ?thesis by simp
next
  case (Next st1)
  with assms(1) have eq: "st1 = st'" by simp
  note nx = Next[unfolded eq]
  note jb = jidac_block_first[OF assms(2), of sha1_of b]
  consider (c) "is_header b" | (h) "\<not> is_header b" "is_table b"
    | (i) "\<not> is_header b" "\<not> is_table b" "jkind b = CHR ''i''"
    | (o) "\<not> is_header b" "\<not> is_table b" "jkind b \<noteq> CHR ''i''" by blast
  then show ?thesis
  proof cases
    case c
    with nx jb obtain st2 where th: "transaction_header b st = Next st2"
      and cg: "caught b (st2, None) = Next st'"
      by (cases "transaction_header b st") simp_all
    from transaction_header_frame(1)[OF th] caught_frame[OF cg] show ?thesis by simp
  next
    case h
    obtain x r where ft: "fragment_table b st = (x, r)" by (cases "fragment_table b st")
    with nx jb h have cg: "caught b (x, r) = Next st'" by simp
    have p: "pass x = pass st \<or> pass x = ERR" using fragment_table_pass[of b st] ft by auto
    have l: "length (ht st) \<le> length (ht x)" using fragment_table_length[of st b] ft by simp
    have d: "0 < data_offset st \<longrightarrow> 0 < data_offset x"
      using fragment_table_data_offset[of st b] ft by simp
    from caught_frame[OF cg] p l d show ?thesis by simp
  next
    case i
    with nx jb have "(case index_block b st of None \<Rightarrow> Overrun | Some r \<Rightarrow> caught b r) = Next st'"
      by simp
    then obtain x r where ib: "index_block b st = Some (x, r)" and cg: "caught b (x, r) = Next st'"
      by (rule index_block_Next)
    note q = index_block_step[OF ib]
    from quiet_step_normal[OF q] quiet_step_length[OF q] caught_frame[OF cg] show ?thesis by auto
  next
    case o
    with nx jb have cg: "caught b (count_error (say ''Bad JIDAC block ignored'' st), None) = Next st'"
      by simp
    from caught_frame[OF cg] show ?thesis by (simp add: count_error_def say_def)
  qed
qed

lemma read_blocks_Block:
  "state_of (read_blocks sha1_of (Block b # tr) st) = Some st' \<Longrightarrow>
   (\<exists>st1. jidac_block sha1_of b st = Next st1 \<and> state_of (read_blocks sha1_of tr st1) = Some st') \<or>
   (\<exists>r. jidac_block sha1_of b st = Returned r st')"
  by (cases "jidac_block sha1_of b st") simp_all

lemma read_blocks_first_pass:
  assumes "state_of (read_blocks sha1_of tr st) = Some st'" "pass st \<noteq> RECOVER"
  shows "(pass st' = pass st \<or> pass st' = ERR) \<and> length (ht st) \<le> length (ht st')"
  using assms
proof (induction tr arbitrary: st)
  case Nil
  then show ?case by simp
next
  case (Cons x tr)
  show ?case
  proof (cases x)
    case (Damaged pos e)
    let ?st1 = "count_error (say e (st\<lparr>block_offset := int pos\<rparr>))"
    have fr: "pass ?st1 = pass st" "ht ?st1 = ht st" by (simp_all add: count_error_def say_def)
    from Cons.prems Damaged have "state_of (read_blocks sha1_of tr ?st1) = Some st'" by simp
    from Cons.IH[OF this] fr Cons.prems(2) show ?thesis by simp
  next
    case (Block b)
    from read_blocks_Block[OF Cons.prems(1)[unfolded Block]]
    consider (nx) st1 where "jidac_block sha1_of b st = Next st1"
        "state_of (read_blocks sha1_of tr st1) = Some st'"
      | (rt) r where "jidac_block sha1_of b st = Returned r st'" by blast
    then show ?thesis
    proof cases
      case nx
      from nx(1) have "state_of (jidac_block sha1_of b st) = Some st1" by simp
      note s1 = block_first_pass[OF this Cons.prems(2)]
      then have "pass st1 \<noteq> RECOVER" using Cons.prems(2) by auto
      from Cons.IH[OF nx(2) this] s1 show ?thesis by auto
    next
      case rt
      then have "state_of (jidac_block sha1_of b st) = Some st'" by simp
      from block_first_pass[OF this Cons.prems(2)] show ?thesis by simp
    qed
  qed
qed

subsection \<open>The fragment table of a pass without table errors\<close>



subsection \<open>The shape of the locators\<close>





subsection \<open>The recovery pass keeps its pass\<close>




subsection \<open>Claim C4: the fragment locator law\<close>




subsection \<open>Claim C6: an incomplete transaction\<close>

text \<open>
  Claim C6 as stated does not hold: the reader does not always report the incomplete
  transaction. The test for \<open>-until\<close> comes first, and a header that it rejects ends
  the reading before its payload is looked at. In the example a complete snapshot dated
  2025-01-02 is followed by the header dated 2025-01-05 with payload -1 that an interrupted
  \<open>add\<close> leaves, and the archive is read with \<open>-until 20250103\<close>: the reader returns
  261, the offset of the unfinished header, with the snapshot before it, and reports
  nothing.
\<close>

theorem incomplete_transaction_unreported:
  "set_version 20250103 = Inr 20250103235959 \<and>
   is_header ex_header_incomplete \<and> btol (os ex_header_incomplete) = - 1 \<and>
   (case read_archive (\<lambda>_. []) 365
           [Block (ex_header 0), Block ex_table, Block ex_header_incomplete]
           [] (Some 0) (jidac_init\<lparr>version := 20250103235959\<rparr>) of
      Returned r st \<Rightarrow>
        r = 261 \<and> map ver_date (ver st) = [0, 20250102000000] \<and> msgs st = [] \<and>
        errors st = Some 0
    | _ \<Rightarrow> False)"
  by (simp add: set_version_def is_header_def ex_header_incomplete_def
     read_archive_def reader_init_def jidac_init_def jidac.extend_def jidac_block_def
     decompressed_def ex_header_def ex_table_def transaction_header_def until_rejects_def Let_def
     btol_def btou_def btoi_def caught_def fragment_table_def ht_entries.simps ht_entry_def grow_ht_eq
     HT_default_def VER_default_def)

text \<open>
  Claim C6, amended. Let the reader have read the blocks \<open>pre\<close> and be in state \<open>st\<close>,
  and let the next block be a transaction header whose eight bytes of payload are a
  negative number. Then \<open>read_archive\<close> returns there: the value returned is the offset
  of that block (\<open>block_offset\<close>, the position after the last block read), no block after
  it is read, no error is counted, and \<open>ht\<close>, \<open>dt\<close> and \<open>ver\<close> are exactly those
  built from the blocks before it. It reports \<open>Incomplete transaction ignored\<close> when
  the header is not beyond \<open>-until\<close>; when it is, the reader returns in the same way
  without a report.
\<close>

theorem incomplete_transaction_stops:
  assumes "read_blocks sha1_of pre (reader_init j errs) = Next st"
    and "is_header b" and "length (os b) = 8" and "btol (os b) < 0"
  shows "\<exists>st'. read_archive sha1_of in_size (pre @ Block b # rest) again errs j
        = Returned (block_offset st) st'
      \<and> ht st' = ht st \<and> dt st' = dt st \<and> ver st' = ver st \<and> errors st' = errors st
      \<and> msgs st' = (if until_rejects b st then msgs st
                     else msgs st @ [''Incomplete transaction ignored''])"
proof -
  let ?st' = "if until_rejects b st then st\<lparr>data_offset := int (tell_seg b) + 1\<rparr>
        else say ''Incomplete transaction ignored'' (st\<lparr>data_offset := int (tell_seg b) + 1\<rparr>)"
  have "state_of (read_blocks sha1_of pre (reader_init j errs)) = Some st"
    using assms(1) by simp
  moreover have "pass (reader_init j errs) \<noteq> RECOVER"
    by (simp add: reader_init_def jidac.extend_def)
  ultimately have nr: "pass st \<noteq> RECOVER"
    using read_blocks_first_pass by fastforce
  have jb: "jidac_block sha1_of b st = Returned (block_offset st) ?st'"
    using jidac_block_first[OF nr, of sha1_of b] assms(2) header_incomplete[OF assms(3,4)] by simp
  have "read_blocks sha1_of (pre @ Block b # rest) (reader_init j errs) = Returned (block_offset st) ?st'"
    using assms(1) jb by (simp add: read_blocks_append)
  then have "read_archive sha1_of in_size (pre @ Block b # rest) again errs j
      = Returned (block_offset st) ?st'"
    by (simp add: read_archive_def)
  moreover have "ht ?st' = ht st \<and> dt ?st' = dt st \<and> ver ?st' = ver st \<and> errors ?st' = errors st
      \<and> msgs ?st' = (if until_rejects b st then msgs st
                     else msgs st @ [''Incomplete transaction ignored''])"
    by (simp add: say_def)
  ultimately show ?thesis by blast
qed

text \<open>
  The example: the same archive, with one more block after the unfinished header, read
  without \<open>-until\<close>. The reader returns 261 with the two fragments and the one snapshot
  read before, and reports the incomplete transaction.
\<close>

theorem incomplete_transaction_stops_witness:
  "(case read_archive (\<lambda>_. []) 431
           ([Block (ex_header 0), Block ex_table] @ Block ex_header_incomplete # [Block ex_index_block])
           [] (Some 0) jidac_init of
      Returned r st \<Rightarrow>
        r = 261 \<and> map csize (ht st) = [HT_BAD, 104, - 1] \<and> map ver_date (ver st) = [0, 20250102000000]
        \<and> msgs st = [''Incomplete transaction ignored''] \<and> errors st = Some 0
    | _ \<Rightarrow> False) \<and>
   is_header ex_header_incomplete \<and> btol (os ex_header_incomplete) = - 1"
proof -
  let ?pre = "[Block (ex_header 0), Block ex_table]"
  obtain st where run: "read_blocks (\<lambda>_. []) ?pre (reader_init jidac_init (Some 0)) = Next st"
    and cs: "map csize (ht st) = [HT_BAD, 104, - 1]" and bo: "block_offset st = 261"
    and vs: "map ver_date (ver st) = [0, 20250102000000]" and ms: "msgs st = []"
    and es: "errors st = Some 0"
    and ur: "\<not> until_rejects ex_header_incomplete st"
    by (simp add: reader_init_def jidac_init_def jidac.extend_def jidac_block_def
     decompressed_def ex_header_def ex_table_def transaction_header_def until_rejects_def Let_def
     btol_def btou_def btoi_def caught_def fragment_table_def ht_entries.simps ht_entry_def grow_ht_eq
     HT_default_def VER_default_def ex_header_incomplete_def)
  have hd: "is_header ex_header_incomplete" by (simp add: is_header_def ex_header_incomplete_def)
  have l8: "length (os ex_header_incomplete) = 8" by (simp add: ex_header_incomplete_def)
  have neg: "btol (os ex_header_incomplete) = - 1"
    by (simp add: ex_header_incomplete_def btol_def)
  then have neg': "btol (os ex_header_incomplete) < 0" by simp
  from incomplete_transaction_stops[OF run hd l8 neg', of 431 "[Block ex_index_block]" "[]"]
  obtain st' where "read_archive (\<lambda>_. []) 431 (?pre @ Block ex_header_incomplete # [Block ex_index_block])
           [] (Some 0) jidac_init = Returned (block_offset st) st'"
    "ht st' = ht st" "ver st' = ver st" "errors st' = errors st"
    "msgs st' = (if until_rejects ex_header_incomplete st then msgs st
                     else msgs st @ [''Incomplete transaction ignored''])"
    by blast
  with cs bo vs ms es ur hd neg show ?thesis by simp
qed

subsection \<open>Claim C7: the cutoff \<open>-until\<close> given as a date\<close>

text \<open>
  Claim C7. An argument of \<open>-until\<close> that is a date of eight digits \<open>YYYYMMDD\<close>, from
  19000101 to 29991231 (any other number of eight digits ends the program with its
  message about the range), sets \<open>version\<close> to \<open>YYYYMMDD235959\<close>. With this value the
  reader returns at the first transaction header whose date is greater, leaving \<open>ht\<close>,
  \<open>dt\<close> and \<open>ver\<close> as they are and reading nothing after it; a header (of a finished
  transaction) whose date is not greater opens a new snapshot with that date, and reading
  goes on.
\<close>

theorem until_date_cutoff:
  assumes "19000101 \<le> a" and "a \<le> 29991231"
    and "version st = a * 1000000 + 235959"
    and "is_header b" and "pass st \<noteq> RECOVER"
    and "length (os b) = 8" and "0 \<le> btol (os b)"
  shows "set_version a = Inr (a * 1000000 + 235959) \<and>
    (if a * 1000000 + 235959 < fdate b
     then \<exists>st'. read_blocks sha1_of (Block b # rest) st = Returned (block_offset st) st' \<and>
            ht st' = ht st \<and> dt st' = dt st \<and> ver st' = ver st
     else \<exists>st'. read_blocks sha1_of (Block b # rest) st = read_blocks sha1_of rest st' \<and>
            ht st' = ht st \<and> dt st' = dt st \<and>
            ver st' = ver st @ [VER_default\<lparr>ver_firstFragment := int (length (ht st)),
                   ver_offset := block_offset st, ver_date := fdate b\<rparr>])"
proof -
  have sv: "set_version a = Inr (a * 1000000 + 235959)"
    using assms(1,2) by (simp add: set_version_def Let_def)
  have big: "\<not> version st < 19000000000000" using assms(1,3) by simp
  note jb = jidac_block_first[OF assms(5), of sha1_of b]
  show ?thesis
  proof (cases "a * 1000000 + 235959 < fdate b")
    case True
    then have "until_rejects b st" using big assms(3) by (simp add: until_rejects_def)
    from header_rejected[OF assms(6) this] jb assms(4)
    have "read_blocks sha1_of (Block b # rest) st =
        Returned (block_offset st) (st\<lparr>data_offset := int (tell_seg b) + 1\<rparr>)"
      by simp
    then have "\<exists>st'. read_blocks sha1_of (Block b # rest) st = Returned (block_offset st) st' \<and>
            ht st' = ht st \<and> dt st' = dt st \<and> ver st' = ver st"
      by simp
    with sv True show ?thesis by simp
  next
    case False
    then have "\<not> until_rejects b st" using big assms(3) by (simp add: until_rejects_def)
    from header_accepted[OF assms(6) this assms(7)] obtain st1 where
      th: "transaction_header b st = Next st1" and fr: "ht st1 = ht st" "dt st1 = dt st"
      "ver st1 = ver st @ [VER_default\<lparr>ver_firstFragment := int (length (ht st)),
                   ver_offset := block_offset st, ver_date := fdate b\<rparr>]"
      by blast
    let ?st' = "st1\<lparr>block_offset := int (tell_end b)\<rparr>"
    have "read_blocks sha1_of (Block b # rest) st = read_blocks sha1_of rest ?st'"
      using jb assms(4) th by (simp add: caught_def)
    moreover have "ht ?st' = ht st \<and> dt ?st' = dt st \<and>
            ver ?st' = ver st @ [VER_default\<lparr>ver_firstFragment := int (length (ht st)),
                   ver_offset := block_offset st, ver_date := fdate b\<rparr>]"
      using fr by simp
    ultimately have "\<exists>st'. read_blocks sha1_of (Block b # rest) st = read_blocks sha1_of rest st' \<and>
            ht st' = ht st \<and> dt st' = dt st \<and>
            ver st' = ver st @ [VER_default\<lparr>ver_firstFragment := int (length (ht st)),
                   ver_offset := block_offset st, ver_date := fdate b\<rparr>]"
      by blast
    with sv False show ?thesis by simp
  qed
qed

text \<open>
  Scenario S6: the snapshot dated 20250102000000 is left out by \<open>-until 20250101\<close>
  (the reader returns at its header, with the dummy snapshot 0 only) and read by
  \<open>-until 20250103\<close>.
\<close>

theorem until_date_cutoff_witness:
  "set_version 20250101 = Inr 20250101235959 \<and> set_version 20250103 = Inr 20250103235959 \<and>
   (case read_blocks (\<lambda>_. []) [Block (ex_header 0)]
           ((reader_init jidac_init None)\<lparr>version := 20250101235959\<rparr>) of
      Returned r st \<Rightarrow> r = 0 \<and> map ver_date (ver st) = [0]
    | _ \<Rightarrow> False) \<and>
   (case read_blocks (\<lambda>_. []) [Block (ex_header 0)]
           ((reader_init jidac_init None)\<lparr>version := 20250103235959\<rparr>) of
      Next st \<Rightarrow> map ver_date (ver st) = [0, 20250102000000]
    | _ \<Rightarrow> False)"
proof -
  let ?st1 = "(reader_init jidac_init None)\<lparr>version := 20250101235959\<rparr>"
  let ?st3 = "(reader_init jidac_init None)\<lparr>version := 20250103235959\<rparr>"
  have hd: "is_header (ex_header 0)" by (simp add: is_header_def ex_header_def)
  have l8: "length (os (ex_header 0)) = 8" by (simp add: ex_header_def)
  have nn: "0 \<le> btol (os (ex_header 0))" by (simp add: ex_header_def btol_def)
  have fd: "fdate (ex_header 0) = 20250102000000" by (simp add: ex_header_def)
  have p1: "pass ?st1 \<noteq> RECOVER" and p3: "pass ?st3 \<noteq> RECOVER"
    by (simp_all add: reader_init_def jidac.extend_def)
  have i1: "ver ?st1 = [VER_default]" "block_offset ?st1 = 0"
    and i3: "ver ?st3 = [VER_default]"
    by (simp_all add: reader_init_def jidac.extend_def jidac_init_def)
  have v1: "version ?st1 = 20250101 * 1000000 + 235959"
    and v3: "version ?st3 = 20250103 * 1000000 + 235959" by simp_all
  from until_date_cutoff[OF _ _ v1 hd p1 l8 nn, of "\<lambda>_. []" "[]"] fd
  have a1: "set_version 20250101 = Inr 20250101235959"
    and "\<exists>st'. read_blocks (\<lambda>_. []) [Block (ex_header 0)] ?st1 = Returned (block_offset ?st1) st' \<and>
            ht st' = ht ?st1 \<and> dt st' = dt ?st1 \<and> ver st' = ver ?st1"
    by simp_all
  then obtain s1 where r1: "read_blocks (\<lambda>_. []) [Block (ex_header 0)] ?st1 = Returned 0 s1"
    "ver s1 = [VER_default]"
    using i1 by auto
  from until_date_cutoff[OF _ _ v3 hd p3 l8 nn, of "\<lambda>_. []" "[]"] fd
  have a3: "set_version 20250103 = Inr 20250103235959"
    and "\<exists>st'. read_blocks (\<lambda>_. []) [Block (ex_header 0)] ?st3 = read_blocks (\<lambda>_. []) [] st' \<and>
            ht st' = ht ?st3 \<and> dt st' = dt ?st3 \<and>
            ver st' = ver ?st3 @ [VER_default\<lparr>ver_firstFragment := int (length (ht ?st3)),
                   ver_offset := block_offset ?st3, ver_date := 20250102000000\<rparr>]"
    by simp_all
  then obtain s3 where r3: "read_blocks (\<lambda>_. []) [Block (ex_header 0)] ?st3 = Next s3"
    "map ver_date (ver s3) = [0, 20250102000000]"
    using i3 by (auto simp: VER_default_def)
  from a1 a3 r1 r3 show ?thesis by (simp add: VER_default_def)
qed

subsection \<open>Claim C9: fragment pointers of an index record\<close>




section \<open>Properties of the snapshot writer\<close>

lemma frag_bytes:
  assumes "read_fragment inp frag0 = (s, rest, eof)"
  shows "put_sb s = take (sz s) inp" "put_sha1 s = take (sz s) inp" "sz s \<le> length inp"
    "rest = drop (sz s) inp"
proof -
  note R = read_fragment_spec[OF assms corr_frag0]
  have c: "corr s (take (sz s) inp)" using R by simp
  show "put_sb s = take (sz s) inp" "put_sha1 s = take (sz s) inp"
    using c by (simp_all add: corr_def)
  show "sz s \<le> length inp" "rest = drop (sz s) inp" using R by simp_all
qed

lemma point_file_frame:
  "ht (point_file j st) = ht st" "sb (point_file j st) = sb st" "frags (point_file j st) = frags st"
  "htinv (point_file j st) = htinv st" "jobs (point_file j st) = jobs st"
  "fi (point_file j st) = fi st" "vf (point_file j st) = vf st" "fj (point_file j st) = fj st + 1"
  by (simp_all add: point_file_def Let_def)

lemma point_file_eptr:
  "\<exists>d. dt (point_file j st) (vf st ! fi st) = Some d \<and> fj st < length (eptr d) \<and> eptr d ! fj st = j"
  by (simp add: point_file_def Let_def)

lemma find_in_hit:
  "find_in htr sh v \<noteq> 0 \<Longrightarrow>
     find_in htr sh v \<in> set v \<and> take 20 sh = take 20 (sha1 (htr ! find_in htr sh v))"
  by (induction v) (auto split: if_splits)

lemma ex_frag: "\<exists>s. read_fragment [1, 2, 3] frag0 = (s, [], True) \<and> sz s = 3"
  by (simp add: frag0_def put_byte_def at_boundary_def MIN_FRAGMENT_def MAX_FRAGMENT_def)

subsection \<open>Claim C3: fragments found in the index\<close>

text \<open>
  Claim C3. One pass of the loop that reads a fragment of the open file: when the SHA-1
  of the fragment is found in the index (\<open>find\<close> returns an ID other than 0, which is
  the ID of an entry with the same twenty bytes of hash), the pending block \<open>sb\<close> is
  afterwards what it was before the fragment was read, no entry is added to \<open>ht\<close>, the
  number of pending fragments is the same, and the ID found is stored at position \<open>fj\<close>
  of the fragment pointers of the file. When it is not found,
  the bytes of the fragment stay at the end of \<open>sb\<close>, \<open>ht\<close> gets the new entry
  \<open>HT(sh, sz, 0)\<close>, and the ID of that entry is stored for the file.
\<close>

theorem dedup_fragment:
  assumes "read_fragment inp frag0 = (s, rest, eof)"
  shows "let st' = read_and_add sha1_of inp st;
             bytes = take (sz s) inp;
             j = ix_find (ht st) (htinv st) (sha1_of bytes)
         in (if j \<noteq> 0
             then take 20 (sha1 (ht st ! j)) = take 20 (sha1_of bytes) \<and>
                  sb st' = sb st \<and> ht st' = ht st \<and> frags st' = frags st \<and>
                  (\<exists>d. dt st' (vf st ! fi st) = Some d \<and> fj st < length (eptr d) \<and> eptr d ! fj st = j)
             else sb st' = sb st @ bytes \<and> frags st' = frags st + 1 \<and>
                  ht st' = ht st @ [\<lparr>sha1 = sha1_of bytes, usize = int (length bytes), csize = 0\<rparr>] \<and>
                  (\<exists>d. dt st' (vf st ! fi st) = Some d \<and> fj st < length (eptr d) \<and>
                       eptr d ! fj st = length (ht st)))"
proof -
  note fb = frag_bytes[OF assms]
  let ?st0 = "st\<lparr>sb := sb st @ put_sb s, inputsize := inputsize st + sz s\<rparr>"
  let ?st1 = "add_fragment sha1_of s ?st0"
  let ?st' = "read_and_add sha1_of inp st"
  let ?j = "ix_find (ht st) (htinv st) (sha1_of (take (sz s) inp))"
  have len: "length (take (sz s) inp) = sz s" using fb(3) by simp
  have ra: "?st' = (if eof then ?st1\<lparr>in_file := None, fi := fi ?st1 + 1, fj := 0\<rparr>
              else ?st1\<lparr>in_file := Some rest\<rparr>)"
    using assms by (simp add: read_and_add_def Let_def)
  have same: "sb ?st' = sb ?st1" "ht ?st' = ht ?st1" "frags ?st' = frags ?st1" "dt ?st' = dt ?st1"
    unfolding ra by simp_all
  show ?thesis
  proof (cases "?j = 0")
    case True
    let ?hts = "ht st @ [\<lparr>sha1 = sha1_of (take (sz s) inp), usize = int (sz s), csize = 0\<rparr>]"
    let ?st2 = "?st0\<lparr>ht := ?hts, frags := frags ?st0 + 1, htinv := ix_update ?hts (htinv ?st0)\<rparr>"
    have af: "?st1 = point_file (length (ht st)) ?st2"
      using True fb by (simp add: add_fragment_def Let_def)
    from point_file_eptr[of "length (ht st)" ?st2]
    have "\<exists>d. dt ?st1 (vf st ! fi st) = Some d \<and> fj st < length (eptr d) \<and>
                       eptr d ! fj st = length (ht st)"
      unfolding af by simp
    moreover have "sb ?st1 = sb st @ take (sz s) inp" "frags ?st1 = frags st + 1" "ht ?st1 = ?hts"
      unfolding af using fb by (simp_all add: point_file_frame)
    ultimately show ?thesis using True same len by (simp add: Let_def)
  next
    case False
    let ?st2 = "?st0\<lparr>sb := take (length (sb ?st0) - sz s) (sb ?st0)\<rparr>"
    have af: "?st1 = point_file ?j ?st2"
      using False fb by (simp add: add_fragment_def Let_def)
    from point_file_eptr[of ?j ?st2]
    have "\<exists>d. dt ?st1 (vf st ! fi st) = Some d \<and> fj st < length (eptr d) \<and> eptr d ! fj st = ?j"
      unfolding af by simp
    moreover have "sb ?st1 = sb st" "frags ?st1 = frags st" "ht ?st1 = ht st"
      unfolding af using fb len by (simp_all add: point_file_frame)
    moreover have "take 20 (sha1 (ht st ! ?j)) = take 20 (sha1_of (take (sz s) inp))"
      using find_in_hit[of "ht st" "sha1_of (take (sz s) inp)"
          "ix_t (htinv st) (ix_hash (sha1_of (take (sz s) inp)))"] False
      by (simp add: ix_find_def)
    ultimately show ?thesis using False same by (simp add: Let_def)
  qed
qed

text \<open>
  The examples: the file \<open>a\<close> with the bytes 1, 2, 3 is added to the empty archive,
  where its fragment is new, and to an archive that holds this fragment already as
  fragment 1, where it is found: nothing is pending afterwards and the table is the same.
\<close>

theorem dedup_fragment_witness:
  "ix_find (ht (adder_init jidac_init [[97]] 20250102000000 False))
      (htinv (adder_init jidac_init [[97]] 20250102000000 False)) (ex_sha1 [1, 2, 3]) = 0 \<and>
   sb (read_and_add ex_sha1 [1, 2, 3] (adder_init jidac_init [[97]] 20250102000000 False)) = [1, 2, 3] \<and>
   frags (read_and_add ex_sha1 [1, 2, 3] (adder_init jidac_init [[97]] 20250102000000 False)) = 1 \<and>
   ht (read_and_add ex_sha1 [1, 2, 3] (adder_init jidac_init [[97]] 20250102000000 False)) =
     [HT_default, \<lparr>sha1 = ex_sha1 [1, 2, 3], usize = 3, csize = 0\<rparr>] \<and>
   (\<exists>d. dt (read_and_add ex_sha1 [1, 2, 3] (adder_init jidac_init [[97]] 20250102000000 False)) [97]
          = Some d \<and> eptr d ! 0 = 1) \<and>
   ix_find (ht (adder_init ex_archive [[97]] 20250102000000 False))
      (htinv (adder_init ex_archive [[97]] 20250102000000 False)) (ex_sha1 [1, 2, 3]) = 1 \<and>
   sb (read_and_add ex_sha1 [1, 2, 3] (adder_init ex_archive [[97]] 20250102000000 False)) = [] \<and>
   frags (read_and_add ex_sha1 [1, 2, 3] (adder_init ex_archive [[97]] 20250102000000 False)) = 0 \<and>
   ht (read_and_add ex_sha1 [1, 2, 3] (adder_init ex_archive [[97]] 20250102000000 False)) = ht ex_archive \<and>
   (\<exists>d. dt (read_and_add ex_sha1 [1, 2, 3] (adder_init ex_archive [[97]] 20250102000000 False)) [97]
          = Some d \<and> eptr d ! 0 = 1)"
proof -
  let ?a = "adder_init jidac_init [[97]] 20250102000000 False"
  let ?b = "adder_init ex_archive [[97]] 20250102000000 False"
  from ex_frag obtain s where rf: "read_fragment [1, 2, 3] frag0 = (s, [], True)" and s3: "sz s = 3"
    by blast
  have tk: "take (sz s) [1, 2, 3 :: byte] = [1, 2, 3]" using s3 by simp
  note ev = adder_init_def jidac_init_def jidac.extend_def HTIndex_new_def ix_update.simps
      HT_default_def ix_find_def ex_sha1_def ex_archive_def
  have ja: "ix_find (ht ?a) (htinv ?a) (ex_sha1 [1, 2, 3]) = 0" by (simp add: ev)
  have jb: "ix_find (ht ?b) (htinv ?b) (ex_sha1 [1, 2, 3]) = 1" by (simp add: ev)
  have ia: "sb ?a = []" "frags ?a = 0" "ht ?a = [HT_default]" "vf ?a ! fi ?a = [97]" "fj ?a = 0"
    by (simp_all add: adder_init_def jidac.extend_def jidac_init_def)
  have ib: "sb ?b = []" "frags ?b = 0" "ht ?b = ht ex_archive" "vf ?b ! fi ?b = [97]" "fj ?b = 0"
    by (simp_all add: adder_init_def jidac.extend_def)
  from dedup_fragment[OF rf, of ex_sha1 ?a, unfolded Let_def tk ja]
  have A: "sb (read_and_add ex_sha1 [1, 2, 3] ?a) = [1, 2, 3]"
    "frags (read_and_add ex_sha1 [1, 2, 3] ?a) = 1"
    "ht (read_and_add ex_sha1 [1, 2, 3] ?a) = [HT_default, \<lparr>sha1 = ex_sha1 [1, 2, 3], usize = 3, csize = 0\<rparr>]"
    "\<exists>d. dt (read_and_add ex_sha1 [1, 2, 3] ?a) [97] = Some d \<and> eptr d ! 0 = 1"
    using ia by auto
  from dedup_fragment[OF rf, of ex_sha1 ?b, unfolded Let_def tk jb]
  have B: "sb (read_and_add ex_sha1 [1, 2, 3] ?b) = []"
    "frags (read_and_add ex_sha1 [1, 2, 3] ?b) = 0"
    "ht (read_and_add ex_sha1 [1, 2, 3] ?b) = ht ex_archive"
    "\<exists>d. dt (read_and_add ex_sha1 [1, 2, 3] ?b) [97] = Some d \<and> eptr d ! 0 = 1"
    using ib by auto
  from ja jb A B show ?thesis by blast
qed

subsection \<open>The new part of the fragment table during the loop\<close>

lemma sum_starts: "length (starts k ns) = length ns"
  by (induction ns arbitrary: k) simp_all

lemma starts_append: "starts k (ns @ [n]) = starts k ns @ [k + sum_list ns]"
  by (induction ns arbitrary: k) (simp_all add: add.assoc)

lemma block_locators_length: "\<forall>jb \<in> set js. 0 < cj_frags jb \<Longrightarrow>
   length (block_locators js) = sum_list (map cj_frags js)"
  by (induction js) (simp_all add: block_locators_def)

lemma block_locators_append:
  "block_locators (js @ [jb]) = block_locators js @ (- 1 # replicate (cj_frags jb - 1) 0)"
  by (simp add: block_locators_def)

lemma add_inv_length:
  assumes "add_inv htsize old st"
  shows "length (ht st) = htsize + sum_list (map cj_frags (jobs st)) + frags st"
proof -
  from assms have a: "take htsize (ht st) = old" "length old = htsize"
    and m: "map csize (drop htsize (ht st)) = block_locators (jobs st) @ replicate (frags st) 0"
    and p: "\<forall>jb \<in> set (jobs st). 0 < cj_frags jb"
    by (simp_all add: add_inv_def)
  have le: "htsize \<le> length (ht st)" using a by (metis length_take min.cobounded1 min_def)
  have "length (drop htsize (ht st)) = sum_list (map cj_frags (jobs st)) + frags st"
    using arg_cong[OF m, of length] block_locators_length[OF p] by simp
  with le show ?thesis by simp
qed

lemma flush_block_inv:
  assumes "add_inv htsize old st" "0 < frags st"
  shows "add_inv htsize old (flush_block st)"
proof -
  from assms(1) have a: "take htsize (ht st) = old" "length old = htsize"
    and m: "map csize (drop htsize (ht st)) = block_locators (jobs st) @ replicate (frags st) 0"
    and f: "map cj_first (jobs st) = starts htsize (map cj_frags (jobs st))"
    and p: "\<forall>jb \<in> set (jobs st). 0 < cj_frags jb"
    by (simp_all add: add_inv_def)
  note len = add_inv_length[OF assms(1)]
  let ?S = "sum_list (map cj_frags (jobs st))"
  let ?first = "length (ht st) - frags st"
  have first: "?first = htsize + ?S" using len by simp
  let ?ht' = "(ht st)[?first := (ht st ! ?first)\<lparr>csize := - 1\<rparr>]"
  have st': "ht (flush_block st) = ?ht'" "frags (flush_block st) = 0"
    "\<exists>x. jobs (flush_block st) = jobs st @ [\<lparr>cj_in = x, cj_date = date st,
                                 cj_first = ?first, cj_frags = frags st\<rparr>]"
    by (simp_all add: flush_block_def Let_def)
  then obtain x where jb: "jobs (flush_block st) = jobs st @ [\<lparr>cj_in = x, cj_date = date st,
                                 cj_first = ?first, cj_frags = frags st\<rparr>]" by blast
  have t: "take htsize ?ht' = old" using a first by simp
  have bl: "length (block_locators (jobs st)) = ?S" using block_locators_length[OF p] .
  have "map csize (drop htsize ?ht') = (map csize (drop htsize (ht st)))[?S := - 1]"
    using first by (simp add: drop_update_swap map_update)
  also have "\<dots> = block_locators (jobs st) @ (replicate (frags st) 0)[0 := - 1]"
    unfolding m using bl by (simp add: list_update_append)
  also have "(replicate (frags st) 0)[0 := - 1] = (- 1 :: int) # replicate (frags st - 1) 0"
    using assms(2) by (cases "frags st") simp_all
  finally have m': "map csize (drop htsize ?ht') =
      block_locators (jobs (flush_block st)) @ replicate (frags (flush_block st)) 0"
    unfolding jb st'(2) by (simp add: block_locators_append)
  have f': "map cj_first (jobs (flush_block st)) = starts htsize (map cj_frags (jobs (flush_block st)))"
    unfolding jb using f first by (simp add: starts_append)
  have p': "\<forall>jb \<in> set (jobs (flush_block st)). 0 < cj_frags jb"
    unfolding jb using p assms(2) by simp
  show ?thesis unfolding add_inv_def using t a(2) m' f' p' st'(1) by simp
qed

lemma add_inv_frame:
  assumes "add_inv htsize old st" "ht st' = ht st" "jobs st' = jobs st" "frags st' = frags st"
  shows "add_inv htsize old st'"
  using assms by (simp add: add_inv_def)

lemma add_fragment_inv:
  assumes "add_inv htsize old st"
  shows "add_inv htsize old (add_fragment sha1_of s st)"
proof (cases "ix_find (ht st) (htinv st) (sha1_of (put_sha1 s)) = 0")
  case False
  then have "ht (add_fragment sha1_of s st) = ht st" "jobs (add_fragment sha1_of s st) = jobs st"
    "frags (add_fragment sha1_of s st) = frags st"
    by (simp_all add: add_fragment_def Let_def point_file_frame)
  with assms show ?thesis by (rule add_inv_frame)
next
  case True
  let ?e = "\<lparr>sha1 = sha1_of (put_sha1 s), usize = int (sz s), csize = 0\<rparr>"
  from True have st': "ht (add_fragment sha1_of s st) = ht st @ [?e]"
    "jobs (add_fragment sha1_of s st) = jobs st"
    "frags (add_fragment sha1_of s st) = frags st + 1"
    by (simp_all add: add_fragment_def Let_def point_file_frame)
  from assms have a: "take htsize (ht st) = old" "length old = htsize"
    and m: "map csize (drop htsize (ht st)) = block_locators (jobs st) @ replicate (frags st) 0"
    and f: "map cj_first (jobs st) = starts htsize (map cj_frags (jobs st))"
    and p: "\<forall>jb \<in> set (jobs st). 0 < cj_frags jb"
    by (simp_all add: add_inv_def)
  have le: "htsize \<le> length (ht st)" using add_inv_length[OF assms] by simp
  have "map csize (drop htsize (ht st @ [?e])) = map csize (drop htsize (ht st)) @ [0]"
    using le by simp
  also have "\<dots> = block_locators (jobs st) @ replicate (frags st + 1) 0"
    unfolding m by (simp add: replicate_append_same)
  finally have m': "map csize (drop htsize (ht st @ [?e])) =
     block_locators (jobs st) @ replicate (frags st + 1) 0" .
  have t: "take htsize (ht st @ [?e]) = old" using a le by simp
  show ?thesis unfolding add_inv_def st' using t a(2) m' f p by simp
qed

lemma read_and_add_inv:
  assumes "add_inv htsize old st"
  shows "add_inv htsize old (read_and_add sha1_of inp st)"
proof -
  obtain s rest eof where rf: "read_fragment inp frag0 = (s, rest, eof)"
    by (metis surj_pair)
  let ?st0 = "st\<lparr>sb := sb st @ put_sb s, inputsize := inputsize st + sz s\<rparr>"
  have "add_inv htsize old ?st0" using assms by (rule add_inv_frame) simp_all
  then have "add_inv htsize old (add_fragment sha1_of s ?st0)" by (rule add_fragment_inv)
  then show ?thesis using rf
    by (auto simp: read_and_add_def Let_def elim: add_inv_frame)
qed

lemma add_step_inv:
  assumes "add_inv htsize old st"
  shows "add_inv htsize old (add_step sha1_of fs ren full st)"
proof -
  have skip: "add_inv htsize old (st\<lparr>fi := fi st + 1\<rparr>)"
    using assms by (rule add_inv_frame) simp_all
  have gone: "add_inv htsize old (st\<lparr>dt := x, fi := fi st + 1\<rparr>)" for x
    using assms by (rule add_inv_frame) simp_all
  show ?thesis
    unfolding add_step_def Let_def
    using assms skip gone flush_block_inv[OF assms] read_and_add_inv[OF assms]
    by (auto split: option.splits)
qed

lemma add_loop_inv:
  assumes "add_loop n sha1_of fs ren full st = Some st'" "add_inv htsize old st"
  shows "add_inv htsize old st' \<and> frags st' = 0 \<and> fi st' = length (vf st') \<or>
         add_inv htsize old st' \<and> frags st' = 0 \<and> length (vf st') < fi st'"
  using assms
proof (induction n arbitrary: st)
  case 0
  then show ?case by simp
next
  case (Suc n)
  show ?case
  proof (cases "fi st < length (vf st) \<or> 0 < frags st")
    case True
    with Suc.prems(1) have "add_loop n sha1_of fs ren full (add_step sha1_of fs ren full st) = Some st'"
      by simp
    from Suc.IH[OF this add_step_inv[OF Suc.prems(2)]] show ?thesis .
  next
    case False
    with Suc.prems have "st' = st" by simp
    with False Suc.prems(2) show ?thesis by auto
  qed
qed

lemma adder_init_inv: "add_inv (length (ht j)) (ht j) (adder_init j names d fr)"
  by (simp add: add_inv_def adder_init_def jidac.extend_def block_locators_def)

subsection \<open>Filling in the compressed sizes\<close>

lemma fill_stop: "\<not> (i < length hts \<and> j < length cs) \<Longrightarrow> fill_csize cs i j hts = (hts, j)"
  by (subst fill_csize.simps) auto

lemma fill_skip:
  assumes "\<forall>k. i \<le> k \<and> k < i + z \<longrightarrow> csize (hts ! k) \<noteq> - 1" "i + z \<le> length hts"
    "j < length cs"
  shows "fill_csize cs i j hts = fill_csize cs (i + z) j hts"
  using assms
proof (induction z arbitrary: i)
  case 0
  then show ?case by simp
next
  case (Suc z)
  have "csize (hts ! i) \<noteq> - 1" using Suc.prems(1) by simp
  moreover have "i < length hts" using Suc.prems(2) by simp
  ultimately have "fill_csize cs i j hts = fill_csize cs (i + 1) j hts"
    using Suc.prems(3) by (subst fill_csize.simps) simp
  also have "\<dots> = fill_csize cs (i + 1 + z) j hts"
    using Suc.prems by (intro Suc.IH) auto
  finally show ?case by simp
qed

lemma fill_blocks:
  assumes "drop i (map csize hts) = block_locators js" "length cs = j + length js"
    "\<forall>jb \<in> set js. 0 < cj_frags jb"
  shows "snd (fill_csize cs i j hts) = length cs \<and>
         map csize (fst (fill_csize cs i j hts)) =
            take i (map csize hts) @ filled_locators (drop j cs) js \<and>
         map sha1 (fst (fill_csize cs i j hts)) = map sha1 hts \<and>
         map usize (fst (fill_csize cs i j hts)) = map usize hts"
  using assms
proof (induction js arbitrary: i j hts)
  case Nil
  then have "length hts \<le> i" "j = length cs" by (simp_all add: block_locators_def)
  then show ?case by (simp add: fill_stop)
next
  case (Cons jb js)
  let ?n = "cj_frags jb"
  have n: "0 < ?n" using Cons.prems(3) by simp
  have d: "drop i (map csize hts) = (- 1 # replicate (?n - 1) 0) @ block_locators js"
    using Cons.prems(1) by (simp add: block_locators_def)
  have il: "i < length hts" using d by (cases "i < length hts") simp_all
  have ci: "csize (hts ! i) = - 1"
    using arg_cong[OF d, of hd] il by (simp add: hd_drop_conv_nth)
  have jl: "j < length cs" using Cons.prems(2) by simp
  let ?h1 = "hts[i := (hts ! i)\<lparr>csize := cs ! j\<rparr>]"
  have step: "fill_csize cs i j hts = fill_csize cs (i + 1) (j + 1) ?h1"
    using il jl ci by (subst fill_csize.simps) simp
  have dj: "drop j cs = cs ! j # drop (j + 1) cs" using jl by (simp add: Cons_nth_drop_Suc)
  have d1: "drop (i + 1) (map csize ?h1) = replicate (?n - 1) 0 @ block_locators js"
  proof -
    have "drop (i + 1) (map csize ?h1) = drop (i + 1) (map csize hts)"
      by (simp add: drop_map)
    also have "\<dots> = drop 1 (drop i (map csize hts))" by simp
    also have "\<dots> = replicate (?n - 1) 0 @ block_locators js" unfolding d by simp
    finally show ?thesis .
  qed
  have t1: "take (i + 1) (map csize ?h1) = take i (map csize hts) @ [cs ! j]"
    using il by (simp add: take_Suc_conv_app_nth take_map)
  have s1: "map sha1 ?h1 = map sha1 hts" "map usize ?h1 = map usize hts"
    using il by (simp_all add: map_update list_update_same_conv)
  show ?case
  proof (cases "js = []")
    case True
    then have "j + 1 = length cs" using Cons.prems(2) by simp
    then have stop: "fill_csize cs (i + 1) (j + 1) ?h1 = (?h1, length cs)"
      by (simp add: fill_stop)
    have all: "map csize ?h1 = take (i + 1) (map csize ?h1) @ drop (i + 1) (map csize ?h1)"
      by simp
    have "map csize ?h1 = take i (map csize hts) @ (cs ! j # replicate (?n - 1) 0)"
      by (subst all, unfold t1 d1) (simp add: True block_locators_def)
    then show ?thesis unfolding step stop using s1 True dj by simp
  next
    case False
    then have j1: "j + 1 < length cs" using Cons.prems(2) by (cases js) simp_all
    have len: "length (drop (i + 1) (map csize ?h1)) = (?n - 1) + length (block_locators js)"
      unfolding d1 by simp
    then have bound: "i + 1 + (?n - 1) \<le> length ?h1" using il by simp
    have zeros: "\<forall>k. i + 1 \<le> k \<and> k < i + 1 + (?n - 1) \<longrightarrow> csize (?h1 ! k) \<noteq> - 1"
    proof (intro allI impI)
      fix k assume k: "i + 1 \<le> k \<and> k < i + 1 + (?n - 1)"
      then have kl: "k < length ?h1" using bound by simp
      have "csize (?h1 ! k) = (drop (i + 1) (map csize ?h1)) ! (k - (i + 1))"
        using k kl by simp
      also have "\<dots> = 0"
      proof -
        have "k - (i + 1) < ?n - 1" using k by arith
        then show ?thesis unfolding d1 by (simp add: nth_append)
      qed
      finally show "csize (?h1 ! k) \<noteq> - 1" by simp
    qed
    have skip: "fill_csize cs (i + 1) (j + 1) ?h1 = fill_csize cs (i + ?n) (j + 1) ?h1"
      using fill_skip[OF zeros bound j1] n by simp
    have d2: "drop (i + ?n) (map csize ?h1) = block_locators js"
    proof -
      have e: "i + ?n = (?n - 1) + (i + 1)" using n by simp
      have "drop (i + ?n) (map csize ?h1) = drop (?n - 1) (drop (i + 1) (map csize ?h1))"
        unfolding e by (simp only: drop_drop)
      then show ?thesis unfolding d1 by simp
    qed
    have l2: "length cs = (j + 1) + length js" using Cons.prems(2) by simp
    have p2: "\<forall>jb \<in> set js. 0 < cj_frags jb" using Cons.prems(3) by simp
    note IH = Cons.IH[OF d2 l2 p2]
    have t2: "take (i + ?n) (map csize ?h1) = take i (map csize hts) @ (cs ! j # replicate (?n - 1) 0)"
    proof -
      have e: "i + ?n = (i + 1) + (?n - 1)" using n by simp
      have "take (i + ?n) (map csize ?h1) =
          take (i + 1) (map csize ?h1) @ take (?n - 1) (drop (i + 1) (map csize ?h1))"
        unfolding e by (rule take_add)
      then show ?thesis unfolding t1 d1 by simp
    qed
    show ?thesis unfolding step skip using IH t2 s1 dj by simp
  qed
qed

subsection \<open>Claim C8: what is filled in after the blocks are written\<close>

lemma filled_locators_length:
  "length cs = length js \<Longrightarrow> \<forall>jb \<in> set js. 0 < cj_frags jb \<Longrightarrow>
   length (filled_locators cs js) = sum_list (map cj_frags js)"
  by (induction cs js rule: filled_locators.induct) simp_all

lemma filled_nth:
  assumes "length cs = length js" "\<forall>jb \<in> set js. 0 < cj_frags jb" "m < length js"
    "i < cj_frags (js ! m)"
  shows "k \<le> starts k (map cj_frags js) ! m \<and>
         starts k (map cj_frags js) ! m - k + i < length (filled_locators cs js) \<and>
         filled_locators cs js ! (starts k (map cj_frags js) ! m - k + i) = (if i = 0 then cs ! m else 0)"
  using assms
proof (induction cs js arbitrary: k m rule: filled_locators.induct)
  case (1 c cs jb js)
  let ?n = "cj_frags jb"
  have n: "0 < ?n" using "1.prems"(2) by simp
  show ?case
  proof (cases m)
    case 0
    then have i: "i < ?n" using "1.prems"(4) by simp
    have e: "filled_locators (c # cs) (jb # js) ! i = (if i = 0 then c else 0)"
    proof (cases i)
      case 0
      then show ?thesis by simp
    next
      case (Suc i')
      then have "i' < ?n - 1" using i by simp
      then show ?thesis using Suc by (simp add: nth_append)
    qed
    show ?thesis using 0 i n e by simp
  next
    case (Suc m')
    have l: "length cs = length js" "\<forall>jb \<in> set js. 0 < cj_frags jb" "m' < length js"
      "i < cj_frags (js ! m')"
      using "1.prems" Suc by simp_all
    note IH = "1.IH"[OF l, of "k + ?n"]
    let ?s = "starts (k + ?n) (map cj_frags js) ! m'"
    have s: "starts k (map cj_frags (jb # js)) ! m = ?s" using Suc by simp
    have ge: "k + ?n \<le> ?s" using IH by simp
    have idx: "?s - k + i = ?n + (?s - (k + ?n) + i)" using ge by simp
    have ln: "length (c # replicate (?n - 1) 0) = ?n" using n by simp
    have a: "filled_locators (c # cs) (jb # js) ! (?s - k + i) =
          filled_locators cs js ! (?s - (k + ?n) + i)"
      unfolding idx filled_locators.simps
      using nth_append_length_plus[of "c # replicate (?n - 1) 0" "filled_locators cs js" "?s - (k + ?n) + i"]
      unfolding ln .
    have b: "length (filled_locators (c # cs) (jb # js)) = ?n + length (filled_locators cs js)"
      using n by simp
    have c: "(c # cs) ! m = cs ! m'" using Suc by simp
    have 1: "k \<le> ?s" using ge by simp
    have ih2: "?s - (k + ?n) + i < length (filled_locators cs js)" using IH by blast
    have 2: "?s - k + i < length (filled_locators (c # cs) (jb # js))"
      unfolding b using ih2 ge by arith
    have 3: "filled_locators (c # cs) (jb # js) ! (?s - k + i) = (if i = 0 then (c # cs) ! m else 0)"
      unfolding a c using IH by blast
    show ?thesis unfolding s using 1 2 3 by blast
  qed
qed simp_all

text \<open>
  Claim C8 as stated does not hold: what is filled in is the compressed size of the block
  (\<open>job.csize\<close>, which the writer appends to for each block it writes), not its
  offset, and the other fragments of a block keep the locator 0. In the example the files
  \<open>a\<close> and \<open>b\<close> are added to the empty archive; their two fragments make one block,
  which the writer puts at 104, after the header, with 50 bytes. The locators of the
  fragments 1 and 2 are 50 and 0 afterwards, not 104 and -1.
\<close>

theorem backfill_counterexample:
  "(case add_loop (Suc (Suc (Suc (Suc 0)))) ex_sha1 ex_fs id (\<lambda>_. False)
           (adder_init jidac_init [[97], [98]] 20250102000000 False) of
      Some st \<Rightarrow>
        map cj_first (jobs st) = [1] \<and> map cj_frags (jobs st) = [2] \<and>
        block_offsets 104 [50] = [104] \<and>
        map csize (fst (fill_csize [50] 1 0 (ht st))) = [HT_BAD, 50, 0] \<and>
        csize (fst (fill_csize [50] 1 0 (ht st)) ! 1) \<noteq> 104 \<and>
        csize (fst (fill_csize [50] 1 0 (ht st)) ! 2) \<noteq> - 1
    | None \<Rightarrow> False)"
  by (simp add: adder_init_def jidac_init_def jidac.extend_def HTIndex_new_def ix_update.simps
      HT_default_def add_step_def Let_def ex_fs_def read_and_add_def frag0_def put_byte_def
      at_boundary_def MIN_FRAGMENT_def MAX_FRAGMENT_def add_fragment_def ix_find_def ex_sha1_def
      point_file_def DT_default_def flush_block_def itob_def fill_csize.simps)

text \<open>
  Claim C8, amended. When the loop of \<open>add\<close> has ended and the writer has recorded
  the sizes \<open>cs\<close> of the compressed blocks, one for each block enqueued and in their
  order, the loop that fills them in uses all of them, and for the \<open>m\<close>-th block the
  locator of the first fragment becomes the compressed size \<open>cs ! m\<close> of the block and
  the locators of its other fragments stay 0. The hashes and sizes of the fragments and
  the locators of the fragments that were in the archive before are not changed.
\<close>

theorem csize_backfill:
  assumes "add_loop n sha1_of fs ren full (adder_init j names d fr) = Some st"
    and "length cs = length (jobs st)"
    and "m < length (jobs st)" and "i < cj_frags (jobs st ! m)"
  shows "snd (fill_csize cs (length (ht j)) 0 (ht st)) = length cs \<and>
         length (ht j) \<le> cj_first (jobs st ! m) \<and>
         cj_first (jobs st ! m) + i < length (fst (fill_csize cs (length (ht j)) 0 (ht st))) \<and>
         csize (fst (fill_csize cs (length (ht j)) 0 (ht st)) ! (cj_first (jobs st ! m) + i)) =
           (if i = 0 then cs ! m else 0) \<and>
         map sha1 (fst (fill_csize cs (length (ht j)) 0 (ht st))) = map sha1 (ht st) \<and>
         map usize (fst (fill_csize cs (length (ht j)) 0 (ht st))) = map usize (ht st) \<and>
         take (length (ht j)) (map csize (fst (fill_csize cs (length (ht j)) 0 (ht st)))) =
           map csize (ht j)"
proof -
  let ?h = "length (ht j)"
  let ?F = "fst (fill_csize cs ?h 0 (ht st))"
  let ?js = "jobs st"
  from add_loop_inv[OF assms(1) adder_init_inv] have inv: "add_inv ?h (ht j) st" and fr: "frags st = 0"
    by auto
  from inv have old: "take ?h (ht st) = ht j"
    and loc: "map csize (drop ?h (ht st)) = block_locators ?js @ replicate (frags st) 0"
    and fs: "map cj_first ?js = starts ?h (map cj_frags ?js)"
    and pos: "\<forall>jb \<in> set ?js. 0 < cj_frags jb"
    by (simp_all add: add_inv_def)
  have d: "drop ?h (map csize (ht st)) = block_locators ?js" using loc fr by (simp add: drop_map)
  have l: "length cs = 0 + length ?js" using assms(2) by simp
  from fill_blocks[OF d l pos]
  have used: "snd (fill_csize cs ?h 0 (ht st)) = length cs"
    and cf: "map csize ?F = take ?h (map csize (ht st)) @ filled_locators cs ?js"
    and sh: "map sha1 ?F = map sha1 (ht st)" and us: "map usize ?F = map usize (ht st)"
    by simp_all
  have "length (take ?h (ht st)) = ?h" unfolding old ..
  then have le: "?h \<le> length (ht st)" by simp
  have lt: "length (take ?h (map csize (ht st))) = ?h" using le by simp
  have first: "cj_first (?js ! m) = starts ?h (map cj_frags ?js) ! m"
    using arg_cong[OF fs, of "\<lambda>xs. xs ! m"] assms(3) by simp
  from filled_nth[OF assms(2) pos assms(3,4), of ?h]
  have ge: "?h \<le> cj_first (?js ! m)"
    and inb: "cj_first (?js ! m) - ?h + i < length (filled_locators cs ?js)"
    and val: "filled_locators cs ?js ! (cj_first (?js ! m) - ?h + i) = (if i = 0 then cs ! m else 0)"
    unfolding first by blast+
  have idx: "cj_first (?js ! m) + i = ?h + (cj_first (?js ! m) - ?h + i)" using ge by simp
  have len: "length (map csize ?F) = ?h + length (filled_locators cs ?js)"
    unfolding cf using lt by simp
  have lenF: "length ?F = ?h + length (filled_locators cs ?js)" using len by simp
  have inF: "cj_first (?js ! m) + i < length ?F" unfolding lenF using inb ge by arith
  have "(take ?h (map csize (ht st)) @ filled_locators cs ?js) !
          (length (take ?h (map csize (ht st))) + (cj_first (?js ! m) - ?h + i)) =
        filled_locators cs ?js ! (cj_first (?js ! m) - ?h + i)"
    by (rule nth_append_length_plus)
  then have "map csize ?F ! (?h + (cj_first (?js ! m) - ?h + i)) =
        filled_locators cs ?js ! (cj_first (?js ! m) - ?h + i)"
    unfolding cf lt .
  then have "map csize ?F ! (cj_first (?js ! m) + i) =
        filled_locators cs ?js ! (cj_first (?js ! m) - ?h + i)"
    by (simp only: idx[symmetric])
  moreover have "map csize ?F ! (cj_first (?js ! m) + i) = csize (?F ! (cj_first (?js ! m) + i))"
    using inF by (rule nth_map)
  ultimately have v: "csize (?F ! (cj_first (?js ! m) + i)) = (if i = 0 then cs ! m else 0)"
    using val by simp
  have "take ?h (map csize ?F) = take ?h (map csize (ht st))"
    unfolding cf using lt by simp
  also have "\<dots> = map csize (ht j)" using old by (simp add: take_map)
  finally have o: "take ?h (map csize ?F) = map csize (ht j)" .
  from used ge inF v sh us o show ?thesis by blast
qed

text \<open>
  The example of the counterexample: one block with the fragments 1 and 2, and the size 50.
\<close>

theorem csize_backfill_witness:
  "(case add_loop (Suc (Suc (Suc (Suc 0)))) ex_sha1 ex_fs id (\<lambda>_. False)
           (adder_init jidac_init [[97], [98]] 20250102000000 False) of
      Some st \<Rightarrow>
        length (jobs st) = 1 \<and> cj_first (jobs st ! 0) = 1 \<and> cj_frags (jobs st ! 0) = 2 \<and>
        snd (fill_csize [50] 1 0 (ht st)) = 1 \<and>
        csize (fst (fill_csize [50] 1 0 (ht st)) ! 1) = 50 \<and>
        csize (fst (fill_csize [50] 1 0 (ht st)) ! 2) = 0
    | None \<Rightarrow> False)"
proof -
  let ?j = "jidac_init"
  obtain st where run: "add_loop (Suc (Suc (Suc (Suc 0)))) ex_sha1 ex_fs id (\<lambda>_. False)
           (adder_init ?j [[97], [98]] 20250102000000 False) = Some st"
    and jl: "length (jobs st) = 1" and jf: "cj_first (jobs st ! 0) = 1" and jn: "cj_frags (jobs st ! 0) = 2"
    by (simp add: adder_init_def jidac_init_def jidac.extend_def HTIndex_new_def ix_update.simps
      HT_default_def add_step_def Let_def ex_fs_def read_and_add_def frag0_def put_byte_def
      at_boundary_def MIN_FRAGMENT_def MAX_FRAGMENT_def add_fragment_def ix_find_def ex_sha1_def
      point_file_def DT_default_def flush_block_def itob_def)
  have h: "length (ht ?j) = 1" by (simp add: jidac_init_def)
  have c: "length [50 :: int] = length (jobs st)" using jl by simp
  have m: "0 < length (jobs st)" using jl by simp
  have i0: "0 < cj_frags (jobs st ! 0)" and i1: "1 < cj_frags (jobs st ! 0)" using jn by simp_all
  from csize_backfill[OF run c m i0] h jf
  have a: "snd (fill_csize [50] 1 0 (ht st)) = 1" "csize (fst (fill_csize [50] 1 0 (ht st)) ! 1) = 50"
    by simp_all
  from csize_backfill[OF run c m i1] h jf
  have b: "csize (fst (fill_csize [50] 1 0 (ht st)) ! 2) = 0"
    by (simp add: numeral_2_eq_2)
  show ?thesis unfolding run option.case using jl jf jn a b by blast
qed

section \<open>Properties of the transaction date\<close>

text \<open>
  Claim C5. When the date of the clock is not after the date of the last snapshot, the new
  date is \<open>decimal_time(unix_time(ver.back().date)+1)\<close>. In the first three examples
  this is the date of the last snapshot plus one second, as the claim says: in the middle
  of a day, at the end of a year, and before the 29th of February.

  \<open>unix_time\<close> computes the seconds in \<open>int\<close>, which has 32 bits. For a last snapshot
  of 2038-01-19 03:14:07 the seconds are \<open>2^31 - 1\<close> and the new date is still right.
  For a last snapshot of 2038-01-19 03:14:08, a date that \<open>add\<close> accepts from the clock,
  the sum is \<open>2^31\<close> and overflows: the new date is not defined. (Where the overflow
  wraps around, the seconds are negative and \<open>decimal_time\<close> gives -1.)
\<close>

theorem date_adjust_overflow:
  "adjust_date [VER_default, VER_default\<lparr>ver_date := 20250102000000\<rparr>] 20250101120000
     = Some (20250102000001, [''Warning: adjusting date'']) \<and>
   adjust_date [VER_default, VER_default\<lparr>ver_date := 20251231235959\<rparr>] 20251231235959
     = Some (20260101000000, [''Warning: adjusting date'']) \<and>
   adjust_date [VER_default, VER_default\<lparr>ver_date := 20240228235959\<rparr>] 20240228235959
     = Some (20240229000000, [''Warning: adjusting date'']) \<and>
   adjust_date [VER_default, VER_default\<lparr>ver_date := 20250102000000\<rparr>] 20250102000001
     = Some (20250102000001, []) \<and>
   unix_time 20380119031407 = Some (2 ^ 31 - 1) \<and>
   adjust_date [VER_default, VER_default\<lparr>ver_date := 20380119031407\<rparr>] 20380119031407
     = Some (20380119031408, [''Warning: adjusting date'']) \<and>
   unix_time 20380119031408 = None \<and>
   adjust_date [VER_default, VER_default\<lparr>ver_date := 20380119031408\<rparr>] 20380119031408 = None \<and>
   decimal_time (sint (word_of_int (2 ^ 31) :: 32 word) + 1) = - 1"
  by (simp add: adjust_date_def unix_time_def decimal_time_def leap_slots_def month_slots_def
      step_up_def Let_def tmod_def tdiv_def days_def as_int_def VER_default_def)

end
